theory Spec2Isabelle
  imports Complex_Main "HOL-Library.Log_Nat" "HOL-Library.Monad_Syntax" "HOL-Library.Word"
begin

section \<open>Status values\<close>

text \<open>
  The functions of the library return an \<^verbatim>\<open>int\<close>: 0 on success, one of the
  negative \<^verbatim>\<open>ERR_RTP_...\<close> constants of \<^verbatim>\<open>rtperrors.h\<close> otherwise.  That header is
  not part of the sources at hand, so the constants are kept symbolic: one constructor
  for each constant the modelled code returns, and \<open>SelectError s\<close> for a negative
  status \<open>s\<close> handed back by \<^verbatim>\<open>RTPSelect\<close>.
\<close>

datatype rtperror =
    ERR_RTP_ABORTDESC_ALREADYINIT
  | ERR_RTP_ABORTDESC_CANTCREATEABORTDESCRIPTORS
  | ERR_RTP_ABORTDESC_CANTCREATEPIPE
  | ERR_RTP_ABORTDESC_NOTINIT
  | ERR_RTP_KEYHASHTABLE_FUNCTIONRETURNEDINVALIDHASHINDEX
  | ERR_RTP_KEYHASHTABLE_KEYALREADYEXISTS
  | ERR_RTP_KEYHASHTABLE_KEYNOTFOUND
  | ERR_RTP_KEYHASHTABLE_NOCURRENTELEMENT
  | ERR_RTP_OUTOFMEM
  | SelectError int

datatype status = Success | Failure rtperror

section \<open>The abort descriptors (rtpabortdescriptors.cpp)\<close>

subsection \<open>The operating system, as far as the descriptors see it\<close>

text \<open>
  Handles are numbers; a descriptor variable holds a handle or \<^verbatim>\<open>RTPSOCKERR\<close>
  (\<open>None\<close>).  The operating system keeps the set of open handles and hands out
  \<open>next_handle\<close> for a new one.  \<open>buffered h\<close> is the number of unread bytes waiting
  on \<open>h\<close>.  The outcome of each fallible system call is read off a script:
  \<open>faults\<close> says for the calls to come, in order, whether they fail (an exhausted
  script means success), and \<open>select_script\<close> gives the status of the
  \<^verbatim>\<open>RTPSelect\<close> calls to come (a negative entry is a failure).
\<close>

type_synonym handle = nat

record os =
  open_handles :: "handle set"
  next_handle :: handle
  buffered :: "handle \<Rightarrow> nat"
  faults :: "bool list"
  select_script :: "int list"

definition next_fault :: "os \<Rightarrow> bool \<times> os" where
  "next_fault s = (case faults s of [] \<Rightarrow> (False, s) | f # fs \<Rightarrow> (f, s\<lparr>faults := fs\<rparr>))"

definition new_handle :: "os \<Rightarrow> handle \<times> os" where
  "new_handle s =
     (next_handle s,
      s\<lparr>open_handles := insert (next_handle s) (open_handles s),
        next_handle := Suc (next_handle s)\<rparr>)"

text \<open>\<^verbatim>\<open>socket(PF_INET,SOCK_STREAM,0)\<close>: a new handle, or \<^verbatim>\<open>RTPSOCKERR\<close>.\<close>

definition sys_socket :: "os \<Rightarrow> handle option \<times> os" where
  "sys_socket s =
     (case next_fault s of
        (True, s1) \<Rightarrow> (None, s1)
      | (False, s1) \<Rightarrow> (case new_handle s1 of (h, s2) \<Rightarrow> (Some h, s2)))"

text \<open>
  \<^verbatim>\<open>bind\<close>, \<^verbatim>\<open>getsockname\<close>, \<^verbatim>\<open>listen\<close> and \<^verbatim>\<open>connect\<close> open no handle; the model
  keeps only whether the call succeeded (\<open>True\<close>: the call returned 0).
\<close>

definition sys_call :: "os \<Rightarrow> bool \<times> os" where
  "sys_call s = (case next_fault s of (f, s1) \<Rightarrow> (\<not> f, s1))"

text \<open>\<^verbatim>\<open>accept\<close>: the handle of the accepted connection, or \<^verbatim>\<open>RTPSOCKERR\<close>.\<close>

definition sys_accept :: "os \<Rightarrow> handle option \<times> os" where
  "sys_accept s = sys_socket s"

text \<open>\<^verbatim>\<open>pipe(fds)\<close>: two new handles, or failure with nothing opened.\<close>

definition sys_pipe :: "os \<Rightarrow> (handle \<times> handle) option \<times> os" where
  "sys_pipe s =
     (case next_fault s of
        (True, s1) \<Rightarrow> (None, s1)
      | (False, s1) \<Rightarrow>
          (case new_handle s1 of (r, s2) \<Rightarrow>
             (case new_handle s2 of (w, s3) \<Rightarrow> (Some (r, w), s3))))"

text \<open>\<^verbatim>\<open>RTPCLOSE\<close> / \<^verbatim>\<open>close\<close>.\<close>

definition RTPCLOSE :: "handle \<Rightarrow> os \<Rightarrow> os" where
  "RTPCLOSE h s = s\<lparr>open_handles := open_handles s - {h}\<rparr>"

subsection \<open>The class\<close>

record RTPAbortDescriptors =
  m_descriptors0 :: "handle option"
  m_descriptors1 :: "handle option"
  m_init :: bool

text \<open>The constructor.\<close>

definition RTPAbortDescriptors_new :: RTPAbortDescriptors where
  "RTPAbortDescriptors_new =
     \<lparr>m_descriptors0 = None, m_descriptors1 = None, m_init = False\<rparr>"

text \<open>
  \<^verbatim>\<open>Init\<close>, variant \<^verbatim>\<open>RTP_SOCKETTYPE_WINSOCK\<close>: a loopback TCP pair built with
  socket, bind, getsockname, socket, bind, listen, connect and accept, in this order.
\<close>

definition Init_winsock :: "RTPAbortDescriptors \<Rightarrow> os \<Rightarrow> status \<times> RTPAbortDescriptors \<times> os" where
  "Init_winsock d s =
    (if m_init d then (Failure ERR_RTP_ABORTDESC_ALREADYINIT, d, s)
     else case sys_socket s of
       (None, s1) \<Rightarrow> (Failure ERR_RTP_ABORTDESC_CANTCREATEABORTDESCRIPTORS, d, s1)
     | (Some listensock, s1) \<Rightarrow>
     (case sys_call s1 of
       (False, s2) \<Rightarrow>
         (Failure ERR_RTP_ABORTDESC_CANTCREATEABORTDESCRIPTORS, d, RTPCLOSE listensock s2)
     | (True, s2) \<Rightarrow>
     (case sys_call s2 of
       (False, s3) \<Rightarrow>
         (Failure ERR_RTP_ABORTDESC_CANTCREATEABORTDESCRIPTORS, d, RTPCLOSE listensock s3)
     | (True, s3) \<Rightarrow>
     (case sys_socket s3 of
       (None, s4) \<Rightarrow>
         (Failure ERR_RTP_ABORTDESC_CANTCREATEABORTDESCRIPTORS,
          d\<lparr>m_descriptors0 := None\<rparr>, RTPCLOSE listensock s4)
     | (Some d0, s4) \<Rightarrow>
     (let d' = d\<lparr>m_descriptors0 := Some d0\<rparr> in
      case sys_call s4 of
       (False, s5) \<Rightarrow>
         (Failure ERR_RTP_ABORTDESC_CANTCREATEABORTDESCRIPTORS, d',
          RTPCLOSE d0 (RTPCLOSE listensock s5))
     | (True, s5) \<Rightarrow>
     (case sys_call s5 of
       (False, s6) \<Rightarrow>
         (Failure ERR_RTP_ABORTDESC_CANTCREATEABORTDESCRIPTORS, d',
          RTPCLOSE d0 (RTPCLOSE listensock s6))
     | (True, s6) \<Rightarrow>
     (case sys_call s6 of
       (False, s7) \<Rightarrow>
         (Failure ERR_RTP_ABORTDESC_CANTCREATEABORTDESCRIPTORS, d',
          RTPCLOSE d0 (RTPCLOSE listensock s7))
     | (True, s7) \<Rightarrow>
     (case sys_accept s7 of
       (None, s8) \<Rightarrow>
         (Failure ERR_RTP_ABORTDESC_CANTCREATEABORTDESCRIPTORS,
          d'\<lparr>m_descriptors1 := None\<rparr>, RTPCLOSE d0 (RTPCLOSE listensock s8))
     | (Some d1, s8) \<Rightarrow>
         (Success, d'\<lparr>m_descriptors1 := Some d1, m_init := True\<rparr>,
          RTPCLOSE listensock s8)))))))))"

text \<open>\<^verbatim>\<open>Init\<close>, unix variant: a pipe.\<close>

definition Init_unix :: "RTPAbortDescriptors \<Rightarrow> os \<Rightarrow> status \<times> RTPAbortDescriptors \<times> os" where
  "Init_unix d s =
    (if m_init d then (Failure ERR_RTP_ABORTDESC_ALREADYINIT, d, s)
     else case sys_pipe s of
       (None, s1) \<Rightarrow> (Failure ERR_RTP_ABORTDESC_CANTCREATEPIPE, d, s1)
     | (Some (r, w), s1) \<Rightarrow>
         (Success, d\<lparr>m_descriptors0 := Some r, m_descriptors1 := Some w, m_init := True\<rparr>, s1))"

text \<open>
  The handles a well-formed system state has given out lie below \<open>next_handle\<close>, so a
  new handle is not an open one.
\<close>

definition os_ok :: "os \<Rightarrow> bool" where
  "os_ok s = (\<forall>h \<in> open_handles s. h < next_handle s)"

subsection \<open>Init: what stays open\<close>

lemma next_fault_keeps:
  "next_fault s = (f, s') \<Longrightarrow> open_handles s' = open_handles s \<and> next_handle s' = next_handle s"
  by (auto simp: next_fault_def split: list.splits)

lemma sys_call_keeps:
  "sys_call s = (b, s') \<Longrightarrow> open_handles s' = open_handles s \<and> next_handle s' = next_handle s"
  by (auto simp: sys_call_def split: prod.splits dest: next_fault_keeps)

lemma sys_socket_None:
  "sys_socket s = (None, s') \<Longrightarrow> open_handles s' = open_handles s \<and> next_handle s' = next_handle s"
  by (auto simp: sys_socket_def new_handle_def split: prod.splits bool.splits dest: next_fault_keeps)

lemma sys_socket_Some:
  "sys_socket s = (Some h, s') \<Longrightarrow>
     h = next_handle s \<and> open_handles s' = insert h (open_handles s) \<and> next_handle s' = Suc h"
  by (auto simp: sys_socket_def new_handle_def split: prod.splits bool.splits dest: next_fault_keeps)

lemma sys_pipe_None:
  "sys_pipe s = (None, s') \<Longrightarrow> open_handles s' = open_handles s \<and> next_handle s' = next_handle s"
  by (auto simp: sys_pipe_def new_handle_def split: prod.splits bool.splits dest: next_fault_keeps)

lemma sys_pipe_Some:
  "sys_pipe s = (Some (r, w), s') \<Longrightarrow>
     r = next_handle s \<and> w = Suc r \<and> open_handles s' = insert w (insert r (open_handles s))
     \<and> next_handle s' = Suc w"
  by (auto simp: sys_pipe_def new_handle_def split: prod.splits bool.splits dest: next_fault_keeps)

lemma os_ok_fresh: "os_ok s \<Longrightarrow> next_handle s \<le> h \<Longrightarrow> h \<notin> open_handles s"
  by (auto simp: os_ok_def)

lemma Init_winsock_failure:
  assumes "Init_winsock d s = (Failure e, d', s')" "os_ok s"
  shows "open_handles s' = open_handles s \<and> m_init d' = m_init d \<and>
         (e = ERR_RTP_ABORTDESC_ALREADYINIT \<and> m_init d \<or>
          e = ERR_RTP_ABORTDESC_CANTCREATEABORTDESCRIPTORS \<and> \<not> m_init d)"
  using assms unfolding Init_winsock_def RTPCLOSE_def sys_accept_def Let_def
  by (auto simp: os_ok_fresh split: if_splits prod.splits option.splits bool.splits
      dest!: sys_call_keeps sys_socket_None sys_socket_Some)

lemma Init_winsock_success:
  assumes "Init_winsock d s = (Success, d', s')" "os_ok s"
  shows "\<not> m_init d \<and> m_init d' \<and>
         (\<exists>r w. r \<noteq> w \<and> r \<notin> open_handles s \<and> w \<notin> open_handles s \<and>
            m_descriptors0 d' = Some r \<and> m_descriptors1 d' = Some w \<and>
            open_handles s' = insert r (insert w (open_handles s)))"
  using assms unfolding Init_winsock_def RTPCLOSE_def sys_accept_def Let_def
  by (auto simp: os_ok_fresh split: if_splits prod.splits option.splits bool.splits
      dest!: sys_call_keeps sys_socket_None sys_socket_Some)

lemma Init_unix_failure:
  assumes "Init_unix d s = (Failure e, d', s')"
  shows "open_handles s' = open_handles s \<and> d' = d \<and>
         (e = ERR_RTP_ABORTDESC_ALREADYINIT \<and> m_init d \<or>
          e = ERR_RTP_ABORTDESC_CANTCREATEPIPE \<and> \<not> m_init d)"
  using assms unfolding Init_unix_def
  by (auto split: if_splits prod.splits option.splits dest!: sys_pipe_None)

lemma Init_unix_success:
  assumes "Init_unix d s = (Success, d', s')" "os_ok s"
  shows "\<not> m_init d \<and> m_init d' \<and>
         (\<exists>r w. r \<noteq> w \<and> r \<notin> open_handles s \<and> w \<notin> open_handles s \<and>
            m_descriptors0 d' = Some r \<and> m_descriptors1 d' = Some w \<and>
            open_handles s' = insert r (insert w (open_handles s)))"
  using assms unfolding Init_unix_def
  by (auto simp: os_ok_fresh split: if_splits prod.splits option.splits dest!: sys_pipe_Some)

text \<open>\<open>failing i fs\<close>: the script \<open>fs\<close> makes the \<open>i\<close>-th call to come fail.\<close>

definition failing :: "nat \<Rightarrow> bool list \<Rightarrow> bool" where
  "failing i fs = (i < length fs \<and> fs ! i)"

lemma failing_tl: "failing i (tl fs) = failing (Suc i) fs"
  by (cases fs) (auto simp: failing_def)

lemma failing_take: "True \<in> set (take n fs) = (\<exists>i<n. failing i fs)"
  by (auto simp: failing_def in_set_conv_nth)

lemma next_fault_failing:
  "next_fault s = (failing 0 (faults s), s\<lparr>faults := tl (faults s)\<rparr>)"
  by (cases s) (auto simp: next_fault_def failing_def split: list.splits)

lemma Init_winsock_status:
  assumes "\<not> m_init d"
  shows "fst (Init_winsock d s) =
    (if True \<in> set (take 8 (faults s)) then Failure ERR_RTP_ABORTDESC_CANTCREATEABORTDESCRIPTORS
     else Success)"
proof -
  have eight: "(8::nat) = Suc (Suc (Suc (Suc (Suc (Suc (Suc (Suc 0)))))))"
    by simp
  have script: "True \<in> set (take 8 (faults s)) =
      (failing 0 (faults s) \<or> failing 1 (faults s) \<or> failing 2 (faults s) \<or>
       failing 3 (faults s) \<or> failing 4 (faults s) \<or> failing 5 (faults s) \<or>
       failing 6 (faults s) \<or> failing 7 (faults s))"
    unfolding failing_take eight by (auto simp: less_Suc_eq numeral_eq_Suc)
  show ?thesis
    using assms unfolding script
    by (simp add: Init_winsock_def sys_socket_def sys_call_def sys_accept_def next_fault_failing
        new_handle_def RTPCLOSE_def Let_def failing_tl numeral_eq_Suc bool.case_eq_if)
qed

lemma Init_unix_status:
  assumes "\<not> m_init d"
  shows "fst (Init_unix d s) =
    (if True \<in> set (take 1 (faults s)) then Failure ERR_RTP_ABORTDESC_CANTCREATEPIPE
     else Success)"
  using assms
  by (simp add: Init_unix_def sys_pipe_def next_fault_failing new_handle_def failing_take
      bool.case_eq_if)

text \<open>
  Claim C4.  \<^verbatim>\<open>Init\<close> on an object that is not yet initialised, in both variants.  The
  socket pair is built in eight steps (socket, bind, getsockname, socket, bind, listen,
  connect, accept), the pipe in one.  If the script makes any of these steps fail,
  \<^verbatim>\<open>Init\<close> returns the error code of its variant
  (\<^verbatim>\<open>ERR_RTP_ABORTDESC_CANTCREATEABORTDESCRIPTORS\<close> for the socket pair,
  \<^verbatim>\<open>ERR_RTP_ABORTDESC_CANTCREATEPIPE\<close> for the pipe), the set of open handles is the
  one before the call (the listen socket and the connecting socket, if they had been
  opened, have been closed again) and the object is still uninitialised.  If no step
  fails, \<^verbatim>\<open>Init\<close> returns 0, the object is initialised and exactly two new handles, the
  two descriptors of the pair, have been added to the open ones.
\<close>

theorem Init_rolls_back_or_opens_pair:
  assumes "os_ok s" and "\<not> m_init d"
  shows "(case Init_winsock d s of
            (st, d', s') \<Rightarrow>
               if True \<in> set (take 8 (faults s))
               then st = Failure ERR_RTP_ABORTDESC_CANTCREATEABORTDESCRIPTORS \<and>
                    open_handles s' = open_handles s \<and> \<not> m_init d'
               else st = Success \<and> m_init d' \<and>
                    (\<exists>r w. r \<noteq> w \<and> r \<notin> open_handles s \<and> w \<notin> open_handles s \<and>
                       m_descriptors0 d' = Some r \<and> m_descriptors1 d' = Some w \<and>
                       open_handles s' = insert r (insert w (open_handles s)))) \<and>
         (case Init_unix d s of
            (st, d', s') \<Rightarrow>
               if True \<in> set (take 1 (faults s))
               then st = Failure ERR_RTP_ABORTDESC_CANTCREATEPIPE \<and>
                    open_handles s' = open_handles s \<and> \<not> m_init d'
               else st = Success \<and> m_init d' \<and>
                    (\<exists>r w. r \<noteq> w \<and> r \<notin> open_handles s \<and> w \<notin> open_handles s \<and>
                       m_descriptors0 d' = Some r \<and> m_descriptors1 d' = Some w \<and>
                       open_handles s' = insert r (insert w (open_handles s))))"
proof
  obtain st d' s' where r: "Init_winsock d s = (st, d', s')"
    by (cases "Init_winsock d s")
  show "case Init_winsock d s of
          (st, d', s') \<Rightarrow>
             if True \<in> set (take 8 (faults s))
             then st = Failure ERR_RTP_ABORTDESC_CANTCREATEABORTDESCRIPTORS \<and>
                  open_handles s' = open_handles s \<and> \<not> m_init d'
             else st = Success \<and> m_init d' \<and>
                  (\<exists>r w. r \<noteq> w \<and> r \<notin> open_handles s \<and> w \<notin> open_handles s \<and>
                     m_descriptors0 d' = Some r \<and> m_descriptors1 d' = Some w \<and>
                     open_handles s' = insert r (insert w (open_handles s)))"
  proof (cases "True \<in> set (take 8 (faults s))")
    case True
    with Init_winsock_status [OF assms(2), of s] r
    have st: "Init_winsock d s = (Failure ERR_RTP_ABORTDESC_CANTCREATEABORTDESCRIPTORS, d', s')"
      by simp
    from Init_winsock_failure [OF st assms(1)] assms(2) st True show ?thesis
      by simp
  next
    case False
    with Init_winsock_status [OF assms(2), of s] r
    have st: "Init_winsock d s = (Success, d', s')"
      by simp
    from Init_winsock_success [OF st assms(1)] st False show ?thesis
      by simp
  qed
next
  obtain st d' s' where r: "Init_unix d s = (st, d', s')"
    by (cases "Init_unix d s")
  show "case Init_unix d s of
          (st, d', s') \<Rightarrow>
             if True \<in> set (take 1 (faults s))
             then st = Failure ERR_RTP_ABORTDESC_CANTCREATEPIPE \<and>
                  open_handles s' = open_handles s \<and> \<not> m_init d'
             else st = Success \<and> m_init d' \<and>
                  (\<exists>r w. r \<noteq> w \<and> r \<notin> open_handles s \<and> w \<notin> open_handles s \<and>
                     m_descriptors0 d' = Some r \<and> m_descriptors1 d' = Some w \<and>
                     open_handles s' = insert r (insert w (open_handles s)))"
  proof (cases "True \<in> set (take 1 (faults s))")
    case True
    with Init_unix_status [OF assms(2), of s] r
    have st: "Init_unix d s = (Failure ERR_RTP_ABORTDESC_CANTCREATEPIPE, d', s')"
      by simp
    from Init_unix_failure [OF st] assms(2) st True show ?thesis
      by simp
  next
    case False
    with Init_unix_status [OF assms(2), of s] r
    have st: "Init_unix d s = (Success, d', s')"
      by simp
    from Init_unix_success [OF st assms(1)] st False show ?thesis
      by simp
  qed
qed

theorem Init_rolls_back_or_opens_pair_witness:
  "os_ok \<lparr>open_handles = {0, 1}, next_handle = 2, buffered = (\<lambda>_. 0),
         faults = [False, False, False, False, False, True], select_script = []\<rparr> \<and>
   \<not> m_init RTPAbortDescriptors_new \<and>
   (case Init_winsock RTPAbortDescriptors_new
           \<lparr>open_handles = {0, 1}, next_handle = 2, buffered = (\<lambda>_. 0),
            faults = [False, False, False, False, False, True], select_script = []\<rparr> of
      (st, d', s') \<Rightarrow>
         st = Failure ERR_RTP_ABORTDESC_CANTCREATEABORTDESCRIPTORS \<and>
         open_handles s' = {0, 1} \<and> \<not> m_init d') \<and>
   (case Init_unix RTPAbortDescriptors_new
           \<lparr>open_handles = {0, 1}, next_handle = 2, buffered = (\<lambda>_. 0),
            faults = [False, False, False, False, False, True], select_script = []\<rparr> of
      (st, d', s') \<Rightarrow>
         st = Success \<and> m_init d' \<and> m_descriptors0 d' = Some 2 \<and> m_descriptors1 d' = Some 3 \<and>
         open_handles s' = {0, 1, 2, 3})"
  using Init_rolls_back_or_opens_pair
    [of "\<lparr>open_handles = {0, 1}, next_handle = 2, buffered = (\<lambda>_. 0),
          faults = [False, False, False, False, False, True], select_script = []\<rparr>"
        RTPAbortDescriptors_new]
  by (auto simp: os_ok_def RTPAbortDescriptors_new_def Init_winsock_def Init_unix_def
      sys_socket_def sys_pipe_def sys_call_def sys_accept_def next_fault_def new_handle_def
      RTPCLOSE_def)

subsection \<open>Reading the signalling bytes\<close>

text \<open>
  Modelled from the spec: \<^verbatim>\<open>RTPSelect\<close> (\<^verbatim>\<open>rtpselect.h\<close> is not among the sources).  The
  spec's MultiWait takes descriptors and a maximum wait, marks the readable ones and
  returns a code below 0 on error; a wait of zero duration is a pure poll.  Here it is
  called with the one descriptor and \<^verbatim>\<open>RTPTime(0)\<close>: the status comes from the script,
  and on success the flag says whether a byte is waiting on the descriptor.
\<close>

definition RTPSelect :: "handle option \<Rightarrow> os \<Rightarrow> status \<times> bool \<times> os" where
  "RTPSelect h s =
     (let st = (case select_script s of [] \<Rightarrow> 0 | x # _ \<Rightarrow> x);
          s1 = s\<lparr>select_script := tl (select_script s)\<rparr>
      in if st < 0 then (Failure (SelectError st), False, s1)
         else (Success, (case h of None \<Rightarrow> False | Some fd \<Rightarrow> 0 < buffered s fd), s1))"

text \<open>
  \<^verbatim>\<open>read(fd,buf,1)\<close> (unix) and \<^verbatim>\<open>recv(fd,buf,1,0)\<close> (winsock) on a blocking descriptor:
  with a byte waiting the call takes it; with none waiting the call does not return, which
  is the result \<open>None\<close>.  On \<^verbatim>\<open>RTPSOCKERR\<close> the call fails at once and changes nothing.
\<close>

definition sys_read1 :: "handle option \<Rightarrow> os \<Rightarrow> os option" where
  "sys_read1 h s =
     (case h of
        None \<Rightarrow> Some s
      | Some fd \<Rightarrow>
          if buffered s fd = 0 then None
          else Some (s\<lparr>buffered := (buffered s)(fd := buffered s fd - 1)\<rparr>))"

text \<open>\<^verbatim>\<open>ReadSignallingByte\<close>: the result of the read itself is ignored.\<close>

definition ReadSignallingByte :: "RTPAbortDescriptors \<Rightarrow> os \<Rightarrow> (status \<times> os) option" where
  "ReadSignallingByte d s =
     (if \<not> m_init d then Some (Failure ERR_RTP_ABORTDESC_NOTINIT, s)
      else case sys_read1 (m_descriptors0 d) s of
             None \<Rightarrow> None
           | Some s1 \<Rightarrow> Some (Success, s1))"

text \<open>The \<^verbatim>\<open>while (!done)\<close> loop of \<^verbatim>\<open>ClearAbortSignal\<close>.\<close>

function ClearAbortSignal_loop :: "RTPAbortDescriptors \<Rightarrow> os \<Rightarrow> (status \<times> os) option" where
  "ClearAbortSignal_loop d s =
     (case RTPSelect (m_descriptors0 d) s of
        (Failure e, isset, s1) \<Rightarrow> Some (Failure e, s1)
      | (Success, isset, s1) \<Rightarrow>
          if \<not> isset then Some (Success, s1)
          else (case ReadSignallingByte d s1 of
                  None \<Rightarrow> None
                | Some (Failure e, s2) \<Rightarrow> Some (Failure e, s2)
                | Some (Success, s2) \<Rightarrow> ClearAbortSignal_loop d s2))"
  by pat_completeness auto
termination
  apply (relation "measure (\<lambda>(d, s). case m_descriptors0 d of None \<Rightarrow> 0 | Some fd \<Rightarrow> buffered s fd)")
   apply simp
  apply (auto simp: RTPSelect_def ReadSignallingByte_def sys_read1_def Let_def
      split: if_splits option.splits)
  done

definition ClearAbortSignal :: "RTPAbortDescriptors \<Rightarrow> os \<Rightarrow> (status \<times> os) option" where
  "ClearAbortSignal d s =
     (if \<not> m_init d then Some (Failure ERR_RTP_ABORTDESC_NOTINIT, s)
      else ClearAbortSignal_loop d s)"


declare ClearAbortSignal_loop.simps [simp del]

lemma ClearAbortSignal_loop_returns: "ClearAbortSignal_loop d s \<noteq> None"
proof (cases "m_descriptors0 d")
  case None
  then show ?thesis
    by (subst ClearAbortSignal_loop.simps) (simp add: RTPSelect_def Let_def)
next
  case (Some fd)
  have "buffered s fd = n \<Longrightarrow> ClearAbortSignal_loop d s \<noteq> None" for n
  proof (induction n arbitrary: s)
    case 0
    with Some show ?case
      by (subst ClearAbortSignal_loop.simps) (simp add: RTPSelect_def Let_def)
  next
    case (Suc n)
    let ?s1 = "s\<lparr>select_script := tl (select_script s)\<rparr>"
    let ?s2 = "?s1\<lparr>buffered := (buffered s)(fd := n)\<rparr>"
    have "ClearAbortSignal_loop d ?s2 \<noteq> None"
      by (rule Suc.IH) simp
    with Some Suc.prems show ?case
      by (subst ClearAbortSignal_loop.simps)
        (auto simp: RTPSelect_def Let_def ReadSignallingByte_def sys_read1_def)
  qed
  then show ?thesis by simp
qed

lemma ClearAbortSignal_loop_drains:
  assumes "m_init d" and "m_descriptors0 d = Some fd" and "buffered s fd = n"
    and "\<forall>x \<in> set (take (Suc n) (select_script s)). 0 \<le> x"
  shows "ClearAbortSignal_loop d s =
           Some (Success, s\<lparr>buffered := (buffered s)(fd := 0),
                            select_script := drop (Suc n) (select_script s)\<rparr>)"
  using assms
proof (induction n arbitrary: s)
  case 0
  then have "RTPSelect (m_descriptors0 d) s = (Success, False, s\<lparr>select_script := tl (select_script s)\<rparr>)"
    by (auto simp: RTPSelect_def Let_def split: list.splits)
  moreover have "(buffered s)(fd := 0) = buffered s"
    using 0 by auto
  ultimately show ?case
    by (subst ClearAbortSignal_loop.simps) (simp add: drop_Suc)
next
  case (Suc n)
  let ?s1 = "s\<lparr>select_script := tl (select_script s)\<rparr>"
  let ?s2 = "?s1\<lparr>buffered := (buffered s)(fd := n)\<rparr>"
  have sel: "RTPSelect (m_descriptors0 d) s = (Success, True, ?s1)"
    using Suc.prems by (auto simp: RTPSelect_def Let_def split: list.splits)
  have rd: "ReadSignallingByte d ?s1 = Some (Success, ?s2)"
    using Suc.prems by (simp add: ReadSignallingByte_def sys_read1_def)
  have "\<forall>x \<in> set (take (Suc n) (select_script ?s2)). 0 \<le> x"
    using Suc.prems(4) by (cases "select_script s") auto
  then have "ClearAbortSignal_loop d ?s2 =
      Some (Success, ?s2\<lparr>buffered := (buffered ?s2)(fd := 0),
                          select_script := drop (Suc n) (select_script ?s2)\<rparr>)"
    using Suc.prems by (intro Suc.IH) simp_all
  with sel rd show ?case
    by (subst ClearAbortSignal_loop.simps) (simp add: drop_Suc)
qed

lemma ClearAbortSignal_loop_fails:
  assumes "m_init d" and "m_descriptors0 d = Some fd"
    and "select_script s = pre @ st # rest" and "\<forall>x \<in> set pre. 0 \<le> x" and "st < 0"
    and "length pre \<le> buffered s fd"
  shows "ClearAbortSignal_loop d s =
           Some (Failure (SelectError st),
                 s\<lparr>buffered := (buffered s)(fd := buffered s fd - length pre),
                   select_script := rest\<rparr>)"
  using assms
proof (induction pre arbitrary: s)
  case Nil
  then have "RTPSelect (m_descriptors0 d) s = (Failure (SelectError st), False, s\<lparr>select_script := rest\<rparr>)"
    by (simp add: RTPSelect_def Let_def)
  moreover have "(buffered s)(fd := buffered s fd) = buffered s"
    by auto
  ultimately show ?case
    by (subst ClearAbortSignal_loop.simps) simp
next
  case (Cons x pre)
  let ?s1 = "s\<lparr>select_script := pre @ st # rest\<rparr>"
  let ?s2 = "?s1\<lparr>buffered := (buffered s)(fd := buffered s fd - 1)\<rparr>"
  have sel: "RTPSelect (m_descriptors0 d) s = (Success, True, ?s1)"
    using Cons.prems by (auto simp: RTPSelect_def Let_def)
  have rd: "ReadSignallingByte d ?s1 = Some (Success, ?s2)"
    using Cons.prems by (auto simp: ReadSignallingByte_def sys_read1_def)
  have "ClearAbortSignal_loop d ?s2 =
      Some (Failure (SelectError st),
            ?s2\<lparr>buffered := (buffered ?s2)(fd := buffered ?s2 fd - length pre),
                select_script := rest\<rparr>)"
    using Cons.prems by (intro Cons.IH) simp_all
  with sel rd show ?case
    by (subst ClearAbortSignal_loop.simps) simp
qed

lemma ClearAbortSignal_loop_empties:
  assumes "ClearAbortSignal_loop d s = Some (Success, s')" and "m_descriptors0 d = Some fd"
  shows "buffered s' fd = 0"
proof -
  have "buffered s fd = n \<Longrightarrow> ClearAbortSignal_loop d s = Some (Success, s') \<Longrightarrow>
        buffered s' fd = 0" for n
  proof (induction n arbitrary: s)
    case 0
    from 0(2) assms(2) 0(1) show ?case
      by (subst (asm) ClearAbortSignal_loop.simps)
        (auto simp: RTPSelect_def Let_def split: if_splits)
  next
    case (Suc n)
    let ?s1 = "s\<lparr>select_script := tl (select_script s)\<rparr>"
    let ?s2 = "?s1\<lparr>buffered := (buffered s)(fd := n)\<rparr>"
    have "ClearAbortSignal_loop d ?s2 = Some (Success, s')"
      using Suc.prems(2) assms(2) Suc.prems(1)
      by (subst (asm) ClearAbortSignal_loop.simps)
        (auto simp: RTPSelect_def Let_def ReadSignallingByte_def sys_read1_def
          split: if_splits)
    then show ?case
      by (intro Suc.IH [of ?s2]) simp_all
  qed
  with assms show ?thesis by simp
qed

text \<open>
  Claim C5.  On an initialised channel whose readable descriptor is \<open>fd\<close>:
  \<^item> \<^verbatim>\<open>ClearAbortSignal\<close> always returns (no read is issued on an empty descriptor);
  \<^item> when no poll fails, it returns 0 after as many reads as bytes were waiting and one
    more poll, and nothing is left waiting on \<open>fd\<close>;
  \<^item> when the poll after \<open>k\<close> reads fails with the negative status \<open>st\<close>, that status is
    returned as it is, with \<open>k\<close> bytes taken;
  \<^item> run again right after a success, with a poll that does not fail, it returns 0 and
    leaves the bytes waiting as they were.
\<close>

theorem ClearAbortSignal_drains:
  assumes "m_init d" and "m_descriptors0 d = Some fd"
  shows "ClearAbortSignal d s \<noteq> None \<and>
    ((\<forall>x \<in> set (select_script s). 0 \<le> x) \<longrightarrow>
       ClearAbortSignal d s =
         Some (Success, s\<lparr>buffered := (buffered s)(fd := 0),
                          select_script := drop (Suc (buffered s fd)) (select_script s)\<rparr>)) \<and>
    (\<forall>pre st rest.
       select_script s = pre @ st # rest \<and> (\<forall>x \<in> set pre. 0 \<le> x) \<and> st < 0 \<and>
       length pre \<le> buffered s fd \<longrightarrow>
       ClearAbortSignal d s =
         Some (Failure (SelectError st),
               s\<lparr>buffered := (buffered s)(fd := buffered s fd - length pre),
                 select_script := rest\<rparr>)) \<and>
    (\<forall>s'. ClearAbortSignal d s = Some (Success, s') \<and>
          (\<forall>x \<in> set (take 1 (select_script s')). 0 \<le> x) \<longrightarrow>
          ClearAbortSignal d s' = Some (Success, s'\<lparr>select_script := tl (select_script s')\<rparr>))"
proof (intro conjI allI impI)
  show "ClearAbortSignal d s \<noteq> None"
    using ClearAbortSignal_loop_returns [of d s] by (simp add: ClearAbortSignal_def)
next
  assume "\<forall>x \<in> set (select_script s). 0 \<le> x"
  then have "\<forall>x \<in> set (take (Suc (buffered s fd)) (select_script s)). 0 \<le> x"
    by (meson in_set_takeD)
  with assms show "ClearAbortSignal d s =
      Some (Success, s\<lparr>buffered := (buffered s)(fd := 0),
                       select_script := drop (Suc (buffered s fd)) (select_script s)\<rparr>)"
    by (simp add: ClearAbortSignal_def ClearAbortSignal_loop_drains)
next
  fix pre st rest
  assume "select_script s = pre @ st # rest \<and> (\<forall>x \<in> set pre. 0 \<le> x) \<and> st < 0 \<and>
    length pre \<le> buffered s fd"
  with assms show "ClearAbortSignal d s =
      Some (Failure (SelectError st),
            s\<lparr>buffered := (buffered s)(fd := buffered s fd - length pre),
              select_script := rest\<rparr>)"
    by (simp add: ClearAbortSignal_def ClearAbortSignal_loop_fails)
next
  fix s'
  assume a: "ClearAbortSignal d s = Some (Success, s') \<and>
    (\<forall>x \<in> set (take 1 (select_script s')). 0 \<le> x)"
  have empty: "buffered s' fd = 0"
    using a assms ClearAbortSignal_loop_empties [of d s s' fd]
    by (simp add: ClearAbortSignal_def)
  have "(buffered s')(fd := 0) = buffered s'"
    using empty by auto
  then show "ClearAbortSignal d s' = Some (Success, s'\<lparr>select_script := tl (select_script s')\<rparr>)"
    using assms empty a ClearAbortSignal_loop_drains [of d fd s' 0]
    by (simp add: ClearAbortSignal_def drop_Suc)
qed

theorem ClearAbortSignal_drains_witness:
  "m_init \<lparr>m_descriptors0 = Some 3, m_descriptors1 = Some 4, m_init = True\<rparr> \<and>
   (case ClearAbortSignal \<lparr>m_descriptors0 = Some 3, m_descriptors1 = Some 4, m_init = True\<rparr>
           \<lparr>open_handles = {3, 4}, next_handle = 5, buffered = (\<lambda>h. if h = 3 then 2 else 0),
            faults = [], select_script = [1, 1, 0, 0]\<rparr> of
      Some (Success, s') \<Rightarrow>
        buffered s' 3 = 0 \<and> select_script s' = [0] \<and>
        ClearAbortSignal \<lparr>m_descriptors0 = Some 3, m_descriptors1 = Some 4, m_init = True\<rparr> s'
          = Some (Success, s'\<lparr>select_script := []\<rparr>)
    | _ \<Rightarrow> False) \<and>
   (case ClearAbortSignal \<lparr>m_descriptors0 = Some 3, m_descriptors1 = Some 4, m_init = True\<rparr>
           \<lparr>open_handles = {3, 4}, next_handle = 5, buffered = (\<lambda>h. if h = 3 then 2 else 0),
            faults = [], select_script = [1, - 7]\<rparr> of
      Some (Failure e, s') \<Rightarrow> e = SelectError (- 7) \<and> buffered s' 3 = 1
    | _ \<Rightarrow> False)"
proof -
  let ?d = "\<lparr>m_descriptors0 = Some 3, m_descriptors1 = Some 4, m_init = True\<rparr>"
  let ?a = "\<lparr>open_handles = {3, 4}, next_handle = 5, buffered = (\<lambda>h. if h = 3 then 2 else 0),
            faults = [], select_script = [1, 1, 0, 0]\<rparr>"
  let ?b = "\<lparr>open_handles = {3, 4}, next_handle = 5, buffered = (\<lambda>h. if h = 3 then 2 else 0),
            faults = [], select_script = [1, - 7]\<rparr>"
  have d: "m_init ?d" "m_descriptors0 ?d = Some 3" by simp_all
  note ta = ClearAbortSignal_drains [OF d, of ?a]
  note tb = ClearAbortSignal_drains [OF d, of ?b]
  from ta have a1: "ClearAbortSignal ?d ?a =
      Some (Success, ?a\<lparr>buffered := (buffered ?a)(3 := 0), select_script := [0]\<rparr>)"
    by simp
  let ?a' = "?a\<lparr>buffered := (buffered ?a)(3 := 0), select_script := [0]\<rparr>"
  from ta a1 have a2: "ClearAbortSignal ?d ?a' = Some (Success, ?a'\<lparr>select_script := []\<rparr>)"
    by simp
  from tb have "select_script ?b = [1] @ (- 7) # [] \<and> (\<forall>x \<in> set [1::int]. 0 \<le> x) \<and>
      (- 7 :: int) < 0 \<and> length [1::int] \<le> buffered ?b 3 \<longrightarrow>
      ClearAbortSignal ?d ?b =
        Some (Failure (SelectError (- 7)),
          ?b\<lparr>buffered := (buffered ?b)(3 := buffered ?b 3 - length [1::int]),
             select_script := []\<rparr>)"
    by blast
  then have b1: "ClearAbortSignal ?d ?b =
        Some (Failure (SelectError (- 7)),
          ?b\<lparr>buffered := (buffered ?b)(3 := buffered ?b 3 - length [1::int]),
             select_script := []\<rparr>)"
    by simp
  show ?thesis
    using a1 a2 b1 by simp
qed

section \<open>The keyed hash table (rtpkeyhashtable.h)\<close>

subsection \<open>Objects and pointers\<close>

text \<open>
  A \<^verbatim>\<open>HashElement *\<close> is the null pointer (\<open>None\<close>) or an address.  The objects made
  by \<^verbatim>\<open>RTPNew\<close> live in \<open>cells\<close>, a map from addresses to objects; \<^verbatim>\<open>RTPDelete\<close> takes
  an object out of it.  \<open>next_free\<close> is the address of the next object to be made, and
  \<open>alloc_script\<close> says for the \<^verbatim>\<open>RTPNew\<close> calls to come, in order, whether they fail
  (return 0); an exhausted script means success.

  The template parameters \<^verbatim>\<open>GetIndex\<close> and \<^verbatim>\<open>hashsize\<close> are parameters of the
  functions below.  Every function returns an \<open>option\<close>: \<open>None\<close> stands for a call
  without a defined result, one that reads through a pointer to no live object, reads
  \<^verbatim>\<open>table[index]\<close> with a negative index, or does not leave its loop.
\<close>

type_synonym addr = nat

datatype 'a member = Indeterminate | Value 'a

record ('k, 'e) HashElement =
  hashindex :: int
  key :: 'k
  element :: 'e
  hashprev :: "addr option"
  hashnext :: "addr option"
  listprev :: "addr option"
  listnext :: "addr option"

record ('k, 'e) RTPKeyHashTable =
  cells :: "addr \<Rightarrow> ('k, 'e) HashElement option"
  next_free :: addr
  alloc_script :: "bool list"
  table :: "int \<Rightarrow> addr option"
  firsthashelem :: "addr option"
  lasthashelem :: "addr option"
  curhashelem :: "addr option member"

text \<open>
  The constructor clears the table and the two ends of the list.  It does not assign
  \<^verbatim>\<open>curhashelem\<close>, which is \<open>Indeterminate\<close> until a function assigns it; a function
  that reads an indeterminate member has no defined result.
\<close>

definition RTPKeyHashTable_new :: "bool list \<Rightarrow> ('k, 'e) RTPKeyHashTable" where
  "RTPKeyHashTable_new script =
     \<lparr>cells = (\<lambda>_. None), next_free = 0, alloc_script = script, table = (\<lambda>_. None),
      firsthashelem = None, lasthashelem = None, curhashelem = Indeterminate\<rparr>"

definition read_cur :: "('k, 'e) RTPKeyHashTable \<Rightarrow> addr option option" where
  "read_cur t = (case curhashelem t of Indeterminate \<Rightarrow> None | Value p \<Rightarrow> Some p)"

text \<open>Writing a field through a pointer: undefined when no object lives there.\<close>

definition modify ::
  "addr \<Rightarrow> (('k, 'e) HashElement \<Rightarrow> ('k, 'e) HashElement) \<Rightarrow> ('k, 'e) RTPKeyHashTable
     \<Rightarrow> ('k, 'e) RTPKeyHashTable option" where
  "modify a f t =
     (case cells t a of
        None \<Rightarrow> None
      | Some n \<Rightarrow> Some (t\<lparr>cells := (cells t)(a \<mapsto> f n)\<rparr>))"

definition GotoFirstElement :: "('k, 'e) RTPKeyHashTable \<Rightarrow> ('k, 'e) RTPKeyHashTable" where
  "GotoFirstElement t = t\<lparr>curhashelem := Value (firsthashelem t)\<rparr>"

definition GotoLastElement :: "('k, 'e) RTPKeyHashTable \<Rightarrow> ('k, 'e) RTPKeyHashTable" where
  "GotoLastElement t = t\<lparr>curhashelem := Value (lasthashelem t)\<rparr>"

definition HasCurrentElement :: "('k, 'e) RTPKeyHashTable \<Rightarrow> bool option" where
  "HasCurrentElement t = do { cur \<leftarrow> read_cur t; Some (if cur = None then False else True) }"

definition GetCurrentElement :: "('k, 'e) RTPKeyHashTable \<Rightarrow> 'e option" where
  "GetCurrentElement t =
     do {
       cur \<leftarrow> read_cur t;
       (case cur of None \<Rightarrow> None | Some a \<Rightarrow> map_option element (cells t a))
     }"

definition GetCurrentKey :: "('k, 'e) RTPKeyHashTable \<Rightarrow> 'k option" where
  "GetCurrentKey t =
     do {
       cur \<leftarrow> read_cur t;
       (case cur of None \<Rightarrow> None | Some a \<Rightarrow> map_option key (cells t a))
     }"

definition GotoNextElement :: "('k, 'e) RTPKeyHashTable \<Rightarrow> ('k, 'e) RTPKeyHashTable option" where
  "GotoNextElement t =
     do {
       cur \<leftarrow> read_cur t;
       (case cur of
          None \<Rightarrow> Some t
        | Some a \<Rightarrow>
            (case cells t a of
               None \<Rightarrow> None
             | Some n \<Rightarrow> Some (t\<lparr>curhashelem := Value (listnext n)\<rparr>)))
     }"

definition GotoPreviousElement :: "('k, 'e) RTPKeyHashTable \<Rightarrow> ('k, 'e) RTPKeyHashTable option" where
  "GotoPreviousElement t =
     do {
       cur \<leftarrow> read_cur t;
       (case cur of
          None \<Rightarrow> Some t
        | Some a \<Rightarrow>
            (case cells t a of
               None \<Rightarrow> None
             | Some n \<Rightarrow> Some (t\<lparr>curhashelem := Value (listprev n)\<rparr>)))
     }"

text \<open>
  The search loop shared by \<^verbatim>\<open>GotoElement\<close>, \<^verbatim>\<open>HasElement\<close> and \<^verbatim>\<open>AddElement\<close>:
  \<^verbatim>\<open>while (!found && e != 0) { if (e->GetKey() == k) found = true; else e = e->hashnext; }\<close>.
  The result is the pair of \<^verbatim>\<open>found\<close> and the pointer at which the loop stopped.
\<close>

partial_function (option) search_bucket ::
  "(addr \<Rightarrow> ('k, 'e) HashElement option) \<Rightarrow> 'k \<Rightarrow> addr option \<Rightarrow> (bool \<times> addr option) option" where
  "search_bucket h k e =
     (case e of
        None \<Rightarrow> Some (False, None)
      | Some a \<Rightarrow>
          (case h a of
             None \<Rightarrow> None
           | Some n \<Rightarrow> if key n = k then Some (True, Some a) else search_bucket h k (hashnext n)))"

text \<open>\<^verbatim>\<open>table[index]\<close>, for an index already known to be below \<^verbatim>\<open>hashsize\<close>.\<close>

definition table_at :: "('k, 'e) RTPKeyHashTable \<Rightarrow> int \<Rightarrow> addr option option" where
  "table_at t index = (if index < 0 then None else Some (table t index))"

definition GotoElement ::
  "('k \<Rightarrow> int) \<Rightarrow> int \<Rightarrow> 'k \<Rightarrow> ('k, 'e) RTPKeyHashTable
     \<Rightarrow> (status \<times> ('k, 'e) RTPKeyHashTable) option" where
  "GotoElement GetIndex hashsize k t =
     (let index = GetIndex k in
      if index \<ge> hashsize
      then Some (Failure ERR_RTP_KEYHASHTABLE_FUNCTIONRETURNEDINVALIDHASHINDEX, t)
      else do {
        e \<leftarrow> table_at t index;
        (found, e') \<leftarrow> search_bucket (cells t) k e;
        Some (if \<not> found then Failure ERR_RTP_KEYHASHTABLE_KEYNOTFOUND else Success,
              t\<lparr>curhashelem := Value e'\<rparr>)
      })"

definition HasElement ::
  "('k \<Rightarrow> int) \<Rightarrow> int \<Rightarrow> 'k \<Rightarrow> ('k, 'e) RTPKeyHashTable \<Rightarrow> bool option" where
  "HasElement GetIndex hashsize k t =
     (let index = GetIndex k in
      if index \<ge> hashsize then Some False
      else do {
        e \<leftarrow> table_at t index;
        (found, e') \<leftarrow> search_bucket (cells t) k e;
        Some found
      })"

text \<open>\<^verbatim>\<open>RTPNew\<close>: the address of the new object, or the null pointer.\<close>

definition RTPNew ::
  "('k, 'e) HashElement \<Rightarrow> ('k, 'e) RTPKeyHashTable \<Rightarrow> addr option \<times> ('k, 'e) RTPKeyHashTable" where
  "RTPNew obj t =
     (case alloc_script t of
        True # rest \<Rightarrow> (None, t\<lparr>alloc_script := rest\<rparr>)
      | _ \<Rightarrow>
          (Some (next_free t),
           t\<lparr>cells := (cells t)(next_free t \<mapsto> obj), next_free := Suc (next_free t),
             alloc_script := tl (alloc_script t)\<rparr>))"

definition RTPDelete :: "addr \<Rightarrow> ('k, 'e) RTPKeyHashTable \<Rightarrow> ('k, 'e) RTPKeyHashTable" where
  "RTPDelete a t = t\<lparr>cells := (cells t)(a := None)\<rparr>"

text \<open>The constructor of \<^verbatim>\<open>HashElement\<close>.\<close>

definition HashElement_new :: "'k \<Rightarrow> 'e \<Rightarrow> int \<Rightarrow> ('k, 'e) HashElement" where
  "HashElement_new k e index =
     \<lparr>hashindex = index, key = k, element = e, hashprev = None, hashnext = None,
      listprev = None, listnext = None\<rparr>"

definition AddElement ::
  "('k \<Rightarrow> int) \<Rightarrow> int \<Rightarrow> 'k \<Rightarrow> 'e \<Rightarrow> ('k, 'e) RTPKeyHashTable
     \<Rightarrow> (status \<times> ('k, 'e) RTPKeyHashTable) option" where
  "AddElement GetIndex hashsize k elem t =
     (let index = GetIndex k in
      if index \<ge> hashsize
      then Some (Failure ERR_RTP_KEYHASHTABLE_FUNCTIONRETURNEDINVALIDHASHINDEX, t)
      else do {
        e \<leftarrow> table_at t index;
        (found, e') \<leftarrow> search_bucket (cells t) k e;
        if found then Some (Failure ERR_RTP_KEYHASHTABLE_KEYALREADYEXISTS, t)
        else
          (case RTPNew (HashElement_new k elem index) t of
             (None, t1) \<Rightarrow> Some (Failure ERR_RTP_OUTOFMEM, t1)
           | (Some newelem, t1) \<Rightarrow> do {
               e \<leftarrow> table_at t1 index;
               let t2 = t1\<lparr>table := (table t1)(index := Some newelem)\<rparr>;
               t3 \<leftarrow> modify newelem (\<lambda>n. n\<lparr>hashnext := e\<rparr>) t2;
               t4 \<leftarrow> (case e of
                       None \<Rightarrow> Some t3
                     | Some ea \<Rightarrow> modify ea (\<lambda>n. n\<lparr>hashprev := Some newelem\<rparr>) t3);
               t5 \<leftarrow> (case firsthashelem t4 of
                       None \<Rightarrow>
                         Some (t4\<lparr>firsthashelem := Some newelem, lasthashelem := Some newelem\<rparr>)
                     | Some _ \<Rightarrow>
                         (case lasthashelem t4 of
                            None \<Rightarrow> None
                          | Some l \<Rightarrow> do {
                              t' \<leftarrow> modify l (\<lambda>n. n\<lparr>listnext := Some newelem\<rparr>) t4;
                              t'' \<leftarrow> modify newelem (\<lambda>n. n\<lparr>listprev := lasthashelem t'\<rparr>) t';
                              Some (t''\<lparr>lasthashelem := Some newelem\<rparr>)
                            }));
               Some (Success, t5)
             })
      })"

text \<open>
  \<^verbatim>\<open>DeleteCurrentElement\<close>, in the two parts its comments name.  The first, ``relink
  elements in current hash bucket'', for the object at \<open>c\<close>:
\<close>

definition relink_bucket ::
  "addr \<Rightarrow> ('k, 'e) RTPKeyHashTable \<Rightarrow> ('k, 'e) RTPKeyHashTable option" where
  "relink_bucket c t =
     do {
       cur \<leftarrow> cells t c;
       let index = hashindex cur;
       let tmp1 = hashprev cur;
       let tmp2 = hashnext cur;
       (case tmp1 of
          None \<Rightarrow> do {
            _ \<leftarrow> table_at t index;
            let t' = t\<lparr>table := (table t)(index := tmp2)\<rparr>;
            (case tmp2 of
               None \<Rightarrow> Some t'
             | Some a2 \<Rightarrow> modify a2 (\<lambda>n. n\<lparr>hashprev := None\<rparr>) t')
          }
        | Some a1 \<Rightarrow> do {
            t' \<leftarrow> modify a1 (\<lambda>n. n\<lparr>hashnext := tmp2\<rparr>) t;
            (case tmp2 of
               None \<Rightarrow> Some t'
             | Some a2 \<Rightarrow> modify a2 (\<lambda>n. n\<lparr>hashprev := tmp1\<rparr>) t')
          })
     }"

text \<open>
  The second, ``relink elements in list''; it also yields \<^verbatim>\<open>tmp2\<close>, the successor of
  the object in the list, which becomes the current element.
\<close>

definition relink_list ::
  "addr \<Rightarrow> ('k, 'e) RTPKeyHashTable \<Rightarrow> (addr option \<times> ('k, 'e) RTPKeyHashTable) option" where
  "relink_list c t =
     do {
       cur \<leftarrow> cells t c;
       let tmp1 = listprev cur;
       let tmp2 = listnext cur;
       t2 \<leftarrow> (case tmp1 of
               None \<Rightarrow>
                 (let t' = t\<lparr>firsthashelem := tmp2\<rparr> in
                  case tmp2 of
                    None \<Rightarrow> Some (t'\<lparr>lasthashelem := None\<rparr>)
                  | Some a2 \<Rightarrow> modify a2 (\<lambda>n. n\<lparr>listprev := None\<rparr>) t')
             | Some a1 \<Rightarrow> do {
                 t' \<leftarrow> modify a1 (\<lambda>n. n\<lparr>listnext := tmp2\<rparr>) t;
                 (case tmp2 of
                    None \<Rightarrow> Some (t'\<lparr>lasthashelem := tmp1\<rparr>)
                  | Some a2 \<Rightarrow> modify a2 (\<lambda>n. n\<lparr>listprev := tmp1\<rparr>) t')
               });
       Some (tmp2, t2)
     }"

definition DeleteCurrentElement ::
  "('k, 'e) RTPKeyHashTable \<Rightarrow> (status \<times> ('k, 'e) RTPKeyHashTable) option" where
  "DeleteCurrentElement t =
     do {
       cur \<leftarrow> read_cur t;
       (case cur of
          None \<Rightarrow> Some (Failure ERR_RTP_KEYHASHTABLE_NOCURRENTELEMENT, t)
        | Some c \<Rightarrow> do {
            t1 \<leftarrow> relink_bucket c t;
            (tmp2, t2) \<leftarrow> relink_list c t1;
            Some (Success, (RTPDelete c t2)\<lparr>curhashelem := Value tmp2\<rparr>)
          })
     }"

definition DeleteElement ::
  "('k \<Rightarrow> int) \<Rightarrow> int \<Rightarrow> 'k \<Rightarrow> ('k, 'e) RTPKeyHashTable
     \<Rightarrow> (status \<times> ('k, 'e) RTPKeyHashTable) option" where
  "DeleteElement GetIndex hashsize k t =
     do {
       (st, t1) \<leftarrow> GotoElement GetIndex hashsize k t;
       (case st of
          Failure e \<Rightarrow> Some (Failure e, t1)
        | Success \<Rightarrow> DeleteCurrentElement t1)
     }"

text \<open>
  A traversal: \<^verbatim>\<open>GotoFirstElement\<close>, then, as long as \<^verbatim>\<open>HasCurrentElement\<close>, take
  \<^verbatim>\<open>GetCurrentKey\<close> and \<^verbatim>\<open>GetCurrentElement\<close> and call \<^verbatim>\<open>GotoNextElement\<close>.
\<close>

partial_function (option) visit_rest ::
  "('k, 'e) RTPKeyHashTable \<Rightarrow> ('k \<times> 'e) list option" where
  "visit_rest t =
     do {
       has \<leftarrow> HasCurrentElement t;
       if has
       then do {
         k \<leftarrow> GetCurrentKey t;
         e \<leftarrow> GetCurrentElement t;
         t' \<leftarrow> GotoNextElement t;
         rest \<leftarrow> visit_rest t';
         Some ((k, e) # rest)
       }
       else Some []
     }"

definition traverse :: "('k, 'e) RTPKeyHashTable \<Rightarrow> ('k \<times> 'e) list option" where
  "traverse t = visit_rest (GotoFirstElement t)"

declare search_bucket.simps [code]
declare visit_rest.simps [code]

subsection \<open>Chains of pointers\<close>

text \<open>
  \<open>path f h p as q\<close>: starting at pointer \<open>p\<close> and following the field \<open>f\<close> through
  live objects visits exactly the addresses \<open>as\<close>, in this order, and ends with the
  pointer \<open>q\<close>.
\<close>

primrec path ::
  "(('k, 'e) HashElement \<Rightarrow> addr option) \<Rightarrow> (addr \<Rightarrow> ('k, 'e) HashElement option)
     \<Rightarrow> addr option \<Rightarrow> addr list \<Rightarrow> addr option \<Rightarrow> bool" where
  "path f h p [] q = (p = q)"
| "path f h p (a # as) q =
     (p = Some a \<and> (case h a of None \<Rightarrow> False | Some n \<Rightarrow> path f h (f n) as q))"

definition first_opt :: "'a list \<Rightarrow> 'a option" where
  "first_opt xs = (case xs of [] \<Rightarrow> None | x # _ \<Rightarrow> Some x)"

definition last_opt :: "'a list \<Rightarrow> 'a option" where
  "last_opt xs = first_opt (rev xs)"

text \<open>
  A doubly linked list: the forward chain from \<open>p\<close> runs through \<open>as\<close> to the null
  pointer, and the backward chain from \<open>l\<close> runs through the reverse of \<open>as\<close> to the
  null pointer.
\<close>

definition dlist ::
  "(('k, 'e) HashElement \<Rightarrow> addr option) \<Rightarrow> (('k, 'e) HashElement \<Rightarrow> addr option)
     \<Rightarrow> (addr \<Rightarrow> ('k, 'e) HashElement option) \<Rightarrow> addr option \<Rightarrow> addr list \<Rightarrow> addr option
     \<Rightarrow> bool" where
  "dlist nxt prv h p as l = (path nxt h p as None \<and> path prv h l (rev as) None)"

text \<open>
  The consistency of a table, relative to the list \<open>xs\<close> of its entries in the order of
  their insertion, each entry being an address with the key and the element stored
  there:
  \<^item> the live objects are those of \<open>xs\<close>, without repetition of address or key, each
    holding its key, its element and the hash index of its key, which is a valid index;
  \<^item> \<^verbatim>\<open>firsthashelem\<close> and \<^verbatim>\<open>lasthashelem\<close> with the fields \<^verbatim>\<open>listnext\<close> and
    \<^verbatim>\<open>listprev\<close> form a doubly linked list of the entries, in the order of \<open>xs\<close>;
  \<^item> for each valid index \<open>i\<close>, \<^verbatim>\<open>table[i]\<close> with \<^verbatim>\<open>hashnext\<close> and \<^verbatim>\<open>hashprev\<close> forms
    a doubly linked list of the entries whose key has index \<open>i\<close>, latest first.
\<close>

definition bucket :: "('k \<Rightarrow> int) \<Rightarrow> int \<Rightarrow> (addr \<times> 'k \<times> 'e) list \<Rightarrow> (addr \<times> 'k \<times> 'e) list" where
  "bucket GetIndex i xs = rev (filter (\<lambda>x. GetIndex (fst (snd x)) = i) xs)"

definition entry_ok ::
  "('k \<Rightarrow> int) \<Rightarrow> int \<Rightarrow> (addr \<Rightarrow> ('k, 'e) HashElement option) \<Rightarrow> addr \<times> 'k \<times> 'e \<Rightarrow> bool" where
  "entry_ok GetIndex hashsize h x =
     (case h (fst x) of
        None \<Rightarrow> False
      | Some n \<Rightarrow>
          key n = fst (snd x) \<and> element n = snd (snd x) \<and>
          hashindex n = GetIndex (fst (snd x)) \<and>
          0 \<le> GetIndex (fst (snd x)) \<and> GetIndex (fst (snd x)) < hashsize)"

definition consistent ::
  "('k \<Rightarrow> int) \<Rightarrow> int \<Rightarrow> ('k, 'e) RTPKeyHashTable \<Rightarrow> (addr \<times> 'k \<times> 'e) list \<Rightarrow> bool" where
  "consistent GetIndex hashsize t xs =
     (distinct (map fst xs) \<and> distinct (map (fst \<circ> snd) xs) \<and>
      dom (cells t) = fst ` set xs \<and>
      (\<forall>x \<in> set xs. fst x < next_free t \<and> entry_ok GetIndex hashsize (cells t) x) \<and>
      dlist listnext listprev (cells t) (firsthashelem t) (map fst xs) (lasthashelem t) \<and>
      (\<forall>i. 0 \<le> i \<and> i < hashsize \<longrightarrow>
         dlist hashnext hashprev (cells t) (table t i) (map fst (bucket GetIndex i xs))
           (last_opt (map fst (bucket GetIndex i xs)))))"

subsection \<open>Facts about chains\<close>

lemma first_opt_simps [simp]:
  "first_opt [] = None" "first_opt (x # xs) = Some x"
  by (simp_all add: first_opt_def)

lemma first_opt_append: "first_opt (xs @ ys) = (if xs = [] then first_opt ys else first_opt xs)"
  by (cases xs) simp_all

lemma last_opt_simps [simp]:
  "last_opt [] = None" "last_opt (xs @ [x]) = Some x"
  by (simp_all add: last_opt_def)

lemma last_opt_append: "last_opt (xs @ ys) = (if ys = [] then last_opt xs else last_opt ys)"
  by (simp add: last_opt_def first_opt_append)

lemma last_opt_Cons: "last_opt (x # xs) = (if xs = [] then Some x else last_opt xs)"
  using last_opt_append [of "[x]" xs] by (simp add: last_opt_def)

lemma first_opt_rev: "first_opt (rev xs) = last_opt xs"
  by (simp add: last_opt_def)

lemma last_opt_rev: "last_opt (rev xs) = first_opt xs"
  by (simp add: last_opt_def)

lemma first_opt_map: "first_opt (map f xs) = map_option f (first_opt xs)"
  by (cases xs) simp_all

lemma last_opt_map: "last_opt (map f xs) = map_option f (last_opt xs)"
  by (simp add: last_opt_def first_opt_map rev_map)

lemma path_append:
  "path f h p (as @ bs) q = (\<exists>r. path f h p as r \<and> path f h r bs q)"
  by (induction as arbitrary: p) (auto split: option.splits)

lemma path_agree:
  assumes "\<And>a. a \<in> set as \<Longrightarrow> map_option f (h' a) = map_option f (h a)"
  shows "path f h' p as q = path f h p as q"
  using assms
proof (induction as arbitrary: p)
  case Nil
  show ?case by simp
next
  case (Cons a as)
  have "map_option f (h' a) = map_option f (h a)"
    by (rule Cons.prems) simp
  moreover have "path f h' r as q = path f h r as q" for r
    by (rule Cons.IH) (simp add: Cons.prems)
  ultimately show ?case
    by (cases "h a"; cases "h' a") auto
qed

lemma path_live: "path f h p as q \<Longrightarrow> a \<in> set as \<Longrightarrow> h a \<noteq> None"
  by (induction as arbitrary: p) (auto split: option.splits)

lemma path_first: "path f h p as None \<Longrightarrow> p = first_opt as"
  by (cases as) auto

lemma path_at:
  assumes "path f h p (ys @ c # zs) None"
  shows "\<exists>n. h c = Some n \<and> f n = first_opt zs \<and> path f h p ys (Some c) \<and>
             path f h (first_opt zs) zs None"
proof -
  from assms obtain r where r: "path f h p ys r" "path f h r (c # zs) None"
    by (auto simp: path_append)
  then obtain n where n: "r = Some c" "h c = Some n" "path f h (f n) zs None"
    by (auto split: option.splits)
  from n(3) have "f n = first_opt zs" by (rule path_first)
  with r n show ?thesis by auto
qed

text \<open>Taking \<open>c\<close> out of a chain: its predecessor, if any, gets its successor.\<close>

lemma path_unlink:
  assumes p: "path f h p (ys @ c # zs) None" and d: "distinct (ys @ c # zs)"
    and same: "\<And>a. a \<in> set (butlast ys) \<union> set zs \<Longrightarrow> map_option f (h' a) = map_option f (h a)"
    and pred: "ys \<noteq> [] \<Longrightarrow> map_option f (h' (last ys)) = Some (first_opt zs)"
  shows "path f h' (if ys = [] then first_opt zs else p) (ys @ zs) None"
proof -
  from path_at [OF p] obtain n where n: "h c = Some n" "f n = first_opt zs"
    "path f h p ys (Some c)" "path f h (first_opt zs) zs None"
    by blast
  have zs: "path f h' (first_opt zs) zs None"
    using n(4) same by (subst path_agree [of zs f h' h]) auto
  show ?thesis
  proof (cases ys rule: rev_cases)
    case Nil
    with zs show ?thesis by simp
  next
    case (snoc ys' y)
    from n(3) snoc obtain m where m: "path f h p ys' (Some y)" "h y = Some m"
      by (auto simp: path_append split: option.splits)
    have "path f h' p ys' (Some y)"
      using m(1) same snoc by (subst path_agree [of ys' f h' h]) auto
    moreover obtain m' where "h' y = Some m'" "f m' = first_opt zs"
      using pred snoc by auto
    ultimately have "path f h' p (ys' @ [y]) (first_opt zs)"
      by (auto simp: path_append)
    with zs have "\<exists>r. path f h' p (ys' @ [y]) r \<and> path f h' r zs None"
      by blast
    then have "path f h' p ((ys' @ [y]) @ zs) None"
      by (simp only: path_append)
    with snoc show ?thesis
      by simp
  qed
qed

text \<open>Putting \<open>a\<close> at the end of a chain: the last object, if any, points to it.\<close>

lemma path_link_end:
  assumes p: "path f h p xs None"
    and same: "\<And>b. b \<in> set (butlast xs) \<Longrightarrow> map_option f (h' b) = map_option f (h b)"
    and pred: "xs \<noteq> [] \<Longrightarrow> map_option f (h' (last xs)) = Some (Some a)"
    and new: "map_option f (h' a) = Some None"
  shows "path f h' (if xs = [] then Some a else p) (xs @ [a]) None"
proof (cases xs rule: rev_cases)
  case Nil
  with new show ?thesis by auto
next
  case (snoc ys y)
  from p snoc have "path f h p ys (Some y)"
    by (auto simp: path_append split: option.splits)
  then have "path f h' p ys (Some y)"
    using same snoc by (subst path_agree [of ys f h' h]) auto
  moreover obtain m where "h' y = Some m" "f m = Some a"
    using pred snoc by auto
  ultimately show ?thesis
    using new snoc by (auto simp: path_append)
qed

text \<open>Putting \<open>a\<close> in front of a chain.\<close>

lemma path_link_front:
  assumes p: "path f h p xs None"
    and same: "\<And>b. b \<in> set xs \<Longrightarrow> map_option f (h' b) = map_option f (h b)"
    and new: "map_option f (h' a) = Some p"
  shows "path f h' (Some a) (a # xs) None"
proof -
  have "path f h' p xs None"
    using p same by (subst path_agree [of xs f h' h]) auto
  with new show ?thesis by auto
qed

subsection \<open>Searching a bucket\<close>

definition entry_of :: "(addr \<times> 'k \<times> 'e) list \<Rightarrow> 'k \<Rightarrow> (addr \<times> 'k \<times> 'e) option" where
  "entry_of xs k = find (\<lambda>x. fst (snd x) = k) xs"

lemma search_bucket_path:
  assumes "path hashnext h p (map fst bs) None"
    and "\<forall>x \<in> set bs. \<exists>n. h (fst x) = Some n \<and> key n = fst (snd x)"
  shows "search_bucket h k p =
           Some (case entry_of bs k of None \<Rightarrow> (False, None) | Some x \<Rightarrow> (True, Some (fst x)))"
  using assms
proof (induction bs arbitrary: p)
  case Nil
  then show ?case
    by (subst search_bucket.simps) (simp add: entry_of_def)
next
  case (Cons b bs)
  from Cons.prems obtain n where n: "p = Some (fst b)" "h (fst b) = Some n" "key n = fst (snd b)"
    "path hashnext h (hashnext n) (map fst bs) None"
    by (auto split: option.splits)
  show ?case
  proof (cases "fst (snd b) = k")
    case True
    with n show ?thesis
      by (subst search_bucket.simps) (simp add: entry_of_def)
  next
    case False
    have "search_bucket h k (hashnext n) =
        Some (case entry_of bs k of None \<Rightarrow> (False, None) | Some x \<Rightarrow> (True, Some (fst x)))"
      using n(4) Cons.prems(2) by (intro Cons.IH) auto
    with False n show ?thesis
      by (subst search_bucket.simps) (simp add: entry_of_def)
  qed
qed

lemma entry_of_unique:
  assumes "distinct (map (fst \<circ> snd) xs)" and "x \<in> set xs" and "fst (snd x) = k"
  shows "entry_of xs k = Some x"
  using assms
proof (induction xs)
  case Nil
  then show ?case by simp
next
  case (Cons y xs)
  then show ?case
    by (cases "y = x") (force simp: entry_of_def)+
qed

lemma entry_of_None: "entry_of xs k = None \<longleftrightarrow> k \<notin> (fst \<circ> snd) ` set xs"
  by (force simp: entry_of_def find_None_iff)

lemma entry_of_Some: "entry_of xs k = Some x \<Longrightarrow> x \<in> set xs \<and> fst (snd x) = k"
  by (auto simp: entry_of_def find_Some_iff)

lemma bucket_set:
  "set (bucket GetIndex i xs) = {x \<in> set xs. GetIndex (fst (snd x)) = i}"
  by (auto simp: bucket_def)

lemma entry_of_bucket:
  assumes "distinct (map (fst \<circ> snd) xs)"
  shows "entry_of (bucket GetIndex (GetIndex k) xs) k = entry_of xs k"
proof (cases "entry_of xs k")
  case None
  then have "k \<notin> (fst \<circ> snd) ` set xs"
    using entry_of_None [of xs k] by blast
  then have "k \<notin> (fst \<circ> snd) ` set (bucket GetIndex (GetIndex k) xs)"
    by (auto simp: bucket_set)
  then have "entry_of (bucket GetIndex (GetIndex k) xs) k = None"
    using entry_of_None [of "bucket GetIndex (GetIndex k) xs" k] by blast
  with None show ?thesis
    by simp
next
  case (Some x)
  then have x: "x \<in> set xs" "fst (snd x) = k"
    by (auto dest: entry_of_Some)
  have "distinct (map (fst \<circ> snd) (bucket GetIndex (GetIndex k) xs))"
    using assms by (simp add: bucket_def distinct_map_filter rev_map [symmetric])
  moreover have "x \<in> set (bucket GetIndex (GetIndex k) xs)"
    using x by (simp add: bucket_set)
  ultimately show ?thesis
    using x Some by (simp add: entry_of_unique)
qed

lemma consistent_search:
  assumes c: "consistent GetIndex hashsize t xs"
    and i: "0 \<le> GetIndex k" "GetIndex k < hashsize"
  shows "search_bucket (cells t) k (table t (GetIndex k)) =
           Some (case entry_of xs k of None \<Rightarrow> (False, None) | Some x \<Rightarrow> (True, Some (fst x)))"
proof -
  let ?b = "bucket GetIndex (GetIndex k) xs"
  have "path hashnext (cells t) (table t (GetIndex k)) (map fst ?b) None"
    using c i by (simp add: consistent_def dlist_def)
  moreover have "\<forall>x \<in> set ?b. \<exists>n. cells t (fst x) = Some n \<and> key n = fst (snd x)"
    using c by (auto simp: consistent_def bucket_set entry_ok_def split: option.splits)
  ultimately have "search_bucket (cells t) k (table t (GetIndex k)) =
      Some (case entry_of ?b k of None \<Rightarrow> (False, None) | Some x \<Rightarrow> (True, Some (fst x)))"
    by (rule search_bucket_path)
  moreover have "entry_of ?b k = entry_of xs k"
    using c by (intro entry_of_bucket) (simp add: consistent_def)
  ultimately show ?thesis by simp
qed

subsection \<open>AddElement\<close>

lemma consistent_ends:
  assumes "consistent GetIndex hashsize t xs"
  shows "firsthashelem t = first_opt (map fst xs)" and "lasthashelem t = last_opt (map fst xs)"
  using assms path_first [of listnext "cells t" "firsthashelem t" "map fst xs"]
    path_first [of listprev "cells t" "lasthashelem t" "rev (map fst xs)"]
  by (simp_all add: consistent_def dlist_def first_opt_rev)

lemma consistent_table:
  assumes "consistent GetIndex hashsize t xs" and "0 \<le> i" and "i < hashsize"
  shows "table t i = first_opt (map fst (bucket GetIndex i xs))"
  using assms path_first [of hashnext "cells t" "table t i" "map fst (bucket GetIndex i xs)"]
  by (simp add: consistent_def dlist_def)

lemma consistent_live:
  assumes "consistent GetIndex hashsize t xs" and "x \<in> set xs"
  shows "\<exists>n. cells t (fst x) = Some n"
  using assms by (auto simp: consistent_def entry_ok_def split: option.splits)

lemma first_opt_in: "first_opt xs = Some x \<Longrightarrow> x \<in> set xs"
  by (cases xs) auto

lemma last_opt_in: "last_opt xs = Some x \<Longrightarrow> x \<in> set xs"
  using first_opt_in [of "rev xs" x] by (simp add: last_opt_def)

text \<open>The table after a successful insertion at the new address \<open>a\<close>.\<close>

definition added ::
  "int \<Rightarrow> 'k \<Rightarrow> 'e \<Rightarrow> ('k, 'e) RTPKeyHashTable \<Rightarrow> ('k, 'e) RTPKeyHashTable" where
  "added i k e t =
     (let a = next_free t; e0 = table t i; l = lasthashelem t in
      t\<lparr>cells := (\<lambda>b.
            if b = a
            then Some \<lparr>hashindex = i, key = k, element = e, hashprev = None, hashnext = e0,
                       listprev = l, listnext = None\<rparr>
            else map_option
                   (\<lambda>n. n\<lparr>hashprev := (if e0 = Some b then Some a else hashprev n),
                           listnext := (if l = Some b then Some a else listnext n)\<rparr>)
                   (cells t b)),
         next_free := Suc a,
         alloc_script := tl (alloc_script t),
         table := (table t)(i := Some a),
         firsthashelem := (if firsthashelem t = None then Some a else firsthashelem t),
         lasthashelem := Some a\<rparr>)"

lemma AddElement_added:
  assumes c: "consistent GetIndex hashsize t xs"
    and i: "0 \<le> GetIndex k" "GetIndex k < hashsize"
    and new: "entry_of xs k = None"
    and mem: "\<not> (\<exists>rest. alloc_script t = True # rest)"
  shows "AddElement GetIndex hashsize k e t = Some (Success, added (GetIndex k) k e t)"
proof -
  let ?i = "GetIndex k"
  let ?a = "next_free t"
  have fresh: "cells t ?a = None"
    using c by (force simp: consistent_def dom_def)
  have search: "search_bucket (cells t) k (table t ?i) = Some (False, None)"
    using consistent_search [OF c i] new by simp
  have alloc: "RTPNew (HashElement_new k e ?i) t =
      (Some ?a, t\<lparr>cells := (cells t)(?a \<mapsto> HashElement_new k e ?i), next_free := Suc ?a,
                   alloc_script := tl (alloc_script t)\<rparr>)"
    using mem by (auto simp: RTPNew_def split: list.splits bool.splits)
  have head: "table t ?i = Some ea \<Longrightarrow> \<exists>n. cells t ea = Some n \<and> ea \<noteq> ?a" for ea
  proof -
    assume "table t ?i = Some ea"
    then have "ea \<in> fst ` set (bucket GetIndex ?i xs)"
      using consistent_table [OF c i] first_opt_in [of "map fst (bucket GetIndex ?i xs)" ea]
      by simp
    then obtain x where "x \<in> set xs" "fst x = ea"
      by (auto simp: bucket_set)
    with consistent_live [OF c, of x] fresh show ?thesis by auto
  qed
  have tail: "lasthashelem t = Some l \<Longrightarrow> \<exists>n. cells t l = Some n \<and> l \<noteq> ?a" for l
  proof -
    assume "lasthashelem t = Some l"
    then have "l \<in> fst ` set xs"
      using consistent_ends(2) [OF c] last_opt_in [of "map fst xs" l] by simp
    then obtain x where "x \<in> set xs" "fst x = l"
      by auto
    with consistent_live [OF c, of x] fresh show ?thesis by auto
  qed
  have ends: "firsthashelem t = None \<longleftrightarrow> lasthashelem t = None"
    using consistent_ends [OF c] by (cases xs rule: rev_cases; cases xs) (simp_all add: last_opt_def first_opt_def split: list.splits)
  show ?thesis
  proof (cases "table t ?i")
    case None
    show ?thesis
    proof (cases "lasthashelem t")
      case l: None
      with None ends i search alloc fresh show ?thesis
        by (auto simp: AddElement_def added_def Let_def table_at_def modify_def HashElement_new_def
            fun_eq_iff map_option_case split: option.splits intro!: RTPKeyHashTable.equality)
    next
      case l: (Some l)
      with tail obtain nl where "cells t l = Some nl" "l \<noteq> ?a" by blast
      with l None ends i search alloc fresh show ?thesis
        by (auto simp: AddElement_def added_def Let_def table_at_def modify_def HashElement_new_def
            fun_eq_iff map_option_case split: option.splits intro!: RTPKeyHashTable.equality)
    qed
  next
    case (Some ea)
    with head obtain nea where ea: "cells t ea = Some nea" "ea \<noteq> ?a" by blast
    show ?thesis
    proof (cases "lasthashelem t")
      case l: None
      with Some ea ends i search alloc fresh show ?thesis
        by (auto simp: AddElement_def added_def Let_def table_at_def modify_def HashElement_new_def
            fun_eq_iff map_option_case split: option.splits intro!: RTPKeyHashTable.equality)
    next
      case l: (Some l)
      with tail obtain nl where "cells t l = Some nl" "l \<noteq> ?a" by blast
      with l Some ea ends i search alloc fresh show ?thesis
        by (auto simp: AddElement_def added_def Let_def table_at_def modify_def HashElement_new_def
            fun_eq_iff map_option_case split: option.splits intro!: RTPKeyHashTable.equality)
    qed
  qed
qed

lemma added_new:
  "cells (added i k e t) (next_free t) =
     Some \<lparr>hashindex = i, key = k, element = e, hashprev = None, hashnext = table t i,
           listprev = lasthashelem t, listnext = None\<rparr>"
  by (simp add: added_def Let_def)

lemma added_old:
  assumes "b \<noteq> next_free t"
  shows "map_option key (cells (added i k e t) b) = map_option key (cells t b)"
    and "map_option element (cells (added i k e t) b) = map_option element (cells t b)"
    and "map_option hashindex (cells (added i k e t) b) = map_option hashindex (cells t b)"
    and "map_option hashnext (cells (added i k e t) b) = map_option hashnext (cells t b)"
    and "map_option listprev (cells (added i k e t) b) = map_option listprev (cells t b)"
    and "table t i \<noteq> Some b \<Longrightarrow>
           map_option hashprev (cells (added i k e t) b) = map_option hashprev (cells t b)"
    and "lasthashelem t \<noteq> Some b \<Longrightarrow>
           map_option listnext (cells (added i k e t) b) = map_option listnext (cells t b)"
    and "table t i = Some b \<Longrightarrow> cells t b \<noteq> None \<Longrightarrow>
           map_option hashprev (cells (added i k e t) b) = Some (Some (next_free t))"
    and "lasthashelem t = Some b \<Longrightarrow> cells t b \<noteq> None \<Longrightarrow>
           map_option listnext (cells (added i k e t) b) = Some (Some (next_free t))"
  using assms by (auto simp: added_def Let_def option.map_comp o_def)

lemma bucket_append:
  "bucket GetIndex j (xs @ [x]) =
     (if GetIndex (fst (snd x)) = j then [x] else []) @ bucket GetIndex j xs"
  by (simp add: bucket_def)

lemma bucket_distinct:
  "distinct (map fst xs) \<Longrightarrow> distinct (map fst (bucket GetIndex j xs))"
  by (simp add: bucket_def distinct_map_filter rev_map [symmetric])

lemma bucket_apart:
  assumes "distinct (map fst xs)" and "x \<in> set (bucket GetIndex i xs)"
    and "y \<in> set (bucket GetIndex j xs)" and "i \<noteq> j"
  shows "fst x \<noteq> fst y"
proof
  assume "fst x = fst y"
  moreover have "x \<in> set xs" "y \<in> set xs"
    using assms by (simp_all add: bucket_set)
  ultimately have "x = y"
    using assms(1) by (meson distinct_map inj_onD)
  with assms show False
    by (simp add: bucket_set)
qed

lemma last_butlast_distinct: "distinct xs \<Longrightarrow> b \<in> set (butlast xs) \<Longrightarrow> b \<noteq> last xs"
  by (cases xs rule: rev_cases) auto

lemma last_opt_last: "xs \<noteq> [] \<Longrightarrow> last_opt xs = Some (last xs)"
  by (cases xs rule: rev_cases) auto

lemma first_opt_hd: "xs \<noteq> [] \<Longrightarrow> first_opt xs = Some (hd xs)"
  by (cases xs) auto

lemma consistent_added:
  assumes c: "consistent GetIndex hashsize t xs"
    and i: "0 \<le> GetIndex k" "GetIndex k < hashsize"
    and new: "entry_of xs k = None"
  shows "consistent GetIndex hashsize (added (GetIndex k) k e t) (xs @ [(next_free t, k, e)])"
proof -
  let ?i = "GetIndex k" and ?a = "next_free t" and ?h = "cells t"
  let ?t' = "added (GetIndex k) k e t"
  let ?h' = "cells ?t'"
  let ?as = "map fst xs"
  have below: "\<And>x. x \<in> set xs \<Longrightarrow> fst x < ?a"
    using c by (simp add: consistent_def)
  then have notin: "?a \<notin> set ?as"
    by fastforce
  have neq: "\<And>b. b \<in> set ?as \<Longrightarrow> b \<noteq> ?a"
    using notin by metis
  have d: "distinct ?as"
    using c by (simp add: consistent_def)
  have live: "\<And>b. b \<in> set ?as \<Longrightarrow> ?h b \<noteq> None"
    using consistent_live [OF c] by auto
  have ends: "firsthashelem t = first_opt ?as" "lasthashelem t = last_opt ?as"
    using consistent_ends [OF c] by simp_all
  have fields: "firsthashelem ?t' = (if firsthashelem t = None then Some ?a else firsthashelem t)"
    "lasthashelem ?t' = Some ?a" "next_free ?t' = Suc ?a"
    "table ?t' = (table t)(?i := Some ?a)"
    by (simp_all add: added_def Let_def)

  have c1: "distinct (map fst (xs @ [(?a, k, e)]))"
    using d notin by simp
  have c2: "distinct (map (fst \<circ> snd) (xs @ [(?a, k, e)]))"
    using c new entry_of_None [of xs k] by (simp add: consistent_def)
  have c3: "dom ?h' = fst ` set (xs @ [(?a, k, e)])"
  proof -
    have "dom ?h' = insert ?a (dom ?h)"
      by (auto simp: added_def Let_def dom_def)
    then show ?thesis
      using c by (simp add: consistent_def)
  qed
  have c4: "\<forall>x \<in> set (xs @ [(?a, k, e)]).
      fst x < next_free ?t' \<and> entry_ok GetIndex hashsize ?h' x"
  proof
    fix x assume x: "x \<in> set (xs @ [(?a, k, e)])"
    show "fst x < next_free ?t' \<and> entry_ok GetIndex hashsize ?h' x"
    proof (cases "x \<in> set xs")
      case True
      then have lt: "fst x < ?a"
        by (rule below)
      then have ne: "fst x \<noteq> ?a"
        by simp
      from True c have ok: "entry_ok GetIndex hashsize ?h x"
        by (simp add: consistent_def)
      then obtain n where n: "?h (fst x) = Some n"
        by (auto simp: entry_ok_def split: option.splits)
      from added_old(1-3) [OF ne, of ?i k e] n obtain n' where
        "?h' (fst x) = Some n'" "key n' = key n" "element n' = element n"
        "hashindex n' = hashindex n"
        by auto
      with ok n lt show ?thesis
        by (simp add: entry_ok_def fields)
    next
      case False
      with x have "x = (?a, k, e)" by simp
      with i show ?thesis
        by (simp add: entry_ok_def added_new fields)
    qed
  qed
  have c5: "dlist listnext listprev ?h' (firsthashelem ?t') (map fst (xs @ [(?a, k, e)]))
      (lasthashelem ?t')"
  proof -
    have old: "path listnext ?h (firsthashelem t) ?as None"
      "path listprev ?h (lasthashelem t) (rev ?as) None"
      using c by (simp_all add: consistent_def dlist_def)
    have "path listnext ?h' (if ?as = [] then Some ?a else firsthashelem t) (?as @ [?a]) None"
    proof (rule path_link_end [OF old(1)])
      fix b assume b: "b \<in> set (butlast ?as)"
      then have ne: "?as \<noteq> []" by auto
      have "b \<noteq> last ?as"
        by (rule last_butlast_distinct [OF d b])
      then have "lasthashelem t \<noteq> Some b"
        using ends(2) last_opt_last [OF ne] by simp
      moreover have "b \<noteq> ?a"
        using b by (intro neq) (rule in_set_butlastD)
      ultimately show "map_option listnext (?h' b) = map_option listnext (?h b)"
        by (simp add: added_old(7))
    next
      assume ne: "?as \<noteq> []"
      then have mem: "last ?as \<in> set ?as"
        by (rule last_in_set)
      have "last ?as \<noteq> ?a"
        using mem notin by metis
      moreover have "lasthashelem t = Some (last ?as)"
        using ends(2) last_opt_last [OF ne] by simp
      moreover have "?h (last ?as) \<noteq> None"
        using mem by (rule live)
      ultimately show "map_option listnext (?h' (last ?as)) = Some (Some ?a)"
        by (simp add: added_old(9))
    next
      show "map_option listnext (?h' ?a) = Some None"
        by (simp add: added_new)
    qed
    moreover have "(?as = []) = (firsthashelem t = None)"
      using ends(1) by (cases ?as) simp_all
    moreover have "path listprev ?h' (Some ?a) (?a # rev ?as) None"
    proof (rule path_link_front [OF old(2)])
      fix b assume "b \<in> set (rev ?as)"
      then have "b \<noteq> ?a" by (intro neq) simp
      then show "map_option listprev (?h' b) = map_option listprev (?h b)"
        by (simp add: added_old(5))
    next
      show "map_option listprev (?h' ?a) = Some (lasthashelem t)"
        by (simp add: added_new)
    qed
    ultimately show ?thesis
      by (simp add: dlist_def fields)
  qed
  have c6: "dlist hashnext hashprev ?h' (table ?t' j)
      (map fst (bucket GetIndex j (xs @ [(?a, k, e)])))
      (last_opt (map fst (bucket GetIndex j (xs @ [(?a, k, e)]))))"
    if j: "0 \<le> j" "j < hashsize" for j
  proof -
    let ?bs = "map fst (bucket GetIndex j xs)"
    have old: "path hashnext ?h (table t j) ?bs None"
      "path hashprev ?h (last_opt ?bs) (rev ?bs) None"
      using c j by (simp_all add: consistent_def dlist_def)
    have sub: "set ?bs \<subseteq> set ?as"
      by (auto simp: bucket_set)
    have db: "distinct ?bs"
      using d by (rule bucket_distinct)
    have head: "table t ?i = first_opt (map fst (bucket GetIndex ?i xs))"
      using consistent_table [OF c i] .
    show ?thesis
    proof (cases "j = ?i")
      case True
      have fwd: "path hashnext ?h' (Some ?a) (?a # ?bs) None"
      proof (rule path_link_front [OF old(1)])
        fix b assume "b \<in> set ?bs"
        then have "b \<noteq> ?a" using sub by (intro neq) blast
        then show "map_option hashnext (?h' b) = map_option hashnext (?h b)"
          by (simp add: added_old(4))
      next
        show "map_option hashnext (?h' ?a) = Some (table t j)"
          using True by (simp add: added_new)
      qed
      have bwd: "path hashprev ?h' (if rev ?bs = [] then Some ?a else last_opt ?bs) (rev ?bs @ [?a]) None"
      proof (rule path_link_end [OF old(2)])
        fix b assume b: "b \<in> set (butlast (rev ?bs))"
        then have "b \<noteq> last (rev ?bs)"
          using db by (intro last_butlast_distinct) simp_all
        moreover from b have "rev ?bs \<noteq> []" by auto
        ultimately have "table t ?i \<noteq> Some b"
          using head True first_opt_hd [of ?bs] by (simp add: last_rev)
        moreover have "b \<in> set ?bs"
          using in_set_butlastD [OF b] by simp
        then have "b \<noteq> ?a"
          using sub by (intro neq) blast
        ultimately show "map_option hashprev (?h' b) = map_option hashprev (?h b)"
          by (simp add: added_old(6))
      next
        assume ne: "rev ?bs \<noteq> []"
        then have "table t ?i = Some (last (rev ?bs))"
          using head True first_opt_hd [of ?bs] by (simp add: last_rev)
        moreover have "last (rev ?bs) \<in> set ?as"
          using ne sub by (metis last_in_set set_rev subsetD)
        then have "last (rev ?bs) \<noteq> ?a" "?h (last (rev ?bs)) \<noteq> None"
          by (rule neq, rule live)
        ultimately show "map_option hashprev (?h' (last (rev ?bs))) = Some (Some ?a)"
          by (simp add: added_old(8))
      next
        show "map_option hashprev (?h' ?a) = Some None"
          by (simp add: added_new)
      qed
      have bk: "map fst (bucket GetIndex j (xs @ [(?a, k, e)])) = ?a # ?bs"
        using True by (simp add: bucket_append)
      have lo: "last_opt (?a # ?bs) = (if rev ?bs = [] then Some ?a else last_opt ?bs)"
        by (simp add: last_opt_Cons)
      have tb: "table ?t' j = Some ?a"
        using True by (simp add: fields)
      show ?thesis
        unfolding dlist_def bk lo tb rev.simps using fwd bwd by blast
    next
      case False
      have "path hashnext ?h' (table t j) ?bs None"
      proof (subst path_agree [of ?bs hashnext ?h' ?h])
        fix b assume "b \<in> set ?bs"
        then have "b \<noteq> ?a" using sub by (intro neq) blast
        then show "map_option hashnext (?h' b) = map_option hashnext (?h b)"
          by (simp add: added_old(4))
      qed (rule old(1))
      moreover have "path hashprev ?h' (last_opt ?bs) (rev ?bs) None"
      proof (subst path_agree [of "rev ?bs" hashprev ?h' ?h])
        fix b assume b: "b \<in> set (rev ?bs)"
        then have "b \<noteq> ?a" using sub by (intro neq) auto
        moreover have "table t ?i \<noteq> Some b"
        proof
          assume "table t ?i = Some b"
          then have "b \<in> fst ` set (bucket GetIndex ?i xs)"
            using head first_opt_in [of "map fst (bucket GetIndex ?i xs)" b] by simp
          then obtain x where x: "x \<in> set (bucket GetIndex ?i xs)" "fst x = b"
            by blast
          from b obtain y where y: "y \<in> set (bucket GetIndex j xs)" "fst y = b"
            by auto
          from bucket_apart [OF d x(1) y(1)] False x(2) y(2) show False
            by simp
        qed
        ultimately show "map_option hashprev (?h' b) = map_option hashprev (?h b)"
          by (simp add: added_old(6))
      qed (rule old(2))
      ultimately show ?thesis
        using False by (simp add: dlist_def fields bucket_append)
    qed
  qed
  from c1 c2 c3 c4 c5 c6 show ?thesis
    unfolding consistent_def by blast
qed

subsection \<open>DeleteCurrentElement\<close>

text \<open>The table after the first part, and after both parts and the deletion.\<close>

definition bucket_relinked ::
  "('k, 'e) HashElement \<Rightarrow> ('k, 'e) RTPKeyHashTable \<Rightarrow> ('k, 'e) RTPKeyHashTable" where
  "bucket_relinked nc t =
     t\<lparr>cells := (\<lambda>b.
           map_option
             (\<lambda>n. n\<lparr>hashnext := (if hashprev nc = Some b then hashnext nc else hashnext n),
                     hashprev := (if hashnext nc = Some b then hashprev nc else hashprev n)\<rparr>)
             (cells t b)),
        table := (if hashprev nc = None then (table t)(hashindex nc := hashnext nc)
                  else table t)\<rparr>"

definition list_relinked ::
  "('k, 'e) HashElement \<Rightarrow> ('k, 'e) RTPKeyHashTable \<Rightarrow> ('k, 'e) RTPKeyHashTable" where
  "list_relinked nc t =
     t\<lparr>cells := (\<lambda>b.
           map_option
             (\<lambda>n. n\<lparr>listnext := (if listprev nc = Some b then listnext nc else listnext n),
                     listprev := (if listnext nc = Some b then listprev nc else listprev n)\<rparr>)
             (cells t b)),
        firsthashelem := (if listprev nc = None then listnext nc else firsthashelem t),
        lasthashelem := (if listnext nc = None then listprev nc else lasthashelem t)\<rparr>"

lemma modify_Some:
  "cells t a = Some n \<Longrightarrow> modify a f t = Some (t\<lparr>cells := (cells t)(a \<mapsto> f n)\<rparr>)"
  by (simp add: modify_def)

lemma relink_bucket_result:
  assumes c: "cells t c = Some nc" and idx: "0 \<le> hashindex nc"
    and hp: "\<And>a. hashprev nc = Some a \<Longrightarrow> cells t a \<noteq> None"
    and hn: "\<And>a. hashnext nc = Some a \<Longrightarrow> cells t a \<noteq> None"
  shows "relink_bucket c t = Some (bucket_relinked nc t)"
proof (cases "hashprev nc")
  case None
  show ?thesis
  proof (cases "hashnext nc")
    case n: None
    with None c idx show ?thesis
      by (simp add: relink_bucket_def table_at_def Let_def)
        (auto simp: bucket_relinked_def fun_eq_iff option.map_ident
          intro!: RTPKeyHashTable.equality)
  next
    case n: (Some a2)
    with hn obtain n2 where n2: "cells t a2 = Some n2" by auto
    with None n c idx show ?thesis
      by (simp add: relink_bucket_def table_at_def Let_def modify_Some)
        (auto simp: bucket_relinked_def fun_eq_iff option.map_ident
          intro!: RTPKeyHashTable.equality)
  qed
next
  case (Some a1)
  with hp obtain n1 where n1: "cells t a1 = Some n1" by auto
  show ?thesis
  proof (cases "hashnext nc")
    case n: None
    with Some c n1 show ?thesis
      by (simp add: relink_bucket_def Let_def modify_Some)
        (auto simp: bucket_relinked_def fun_eq_iff option.map_ident
          intro!: RTPKeyHashTable.equality)
  next
    case n: (Some a2)
    with hn obtain n2 where n2: "cells t a2 = Some n2" by auto
    with Some n c n1 show ?thesis
      by (simp add: relink_bucket_def Let_def modify_def)
        (auto simp: bucket_relinked_def fun_eq_iff option.map_ident
          intro!: RTPKeyHashTable.equality)
  qed
qed

lemma relink_list_result:
  assumes c: "cells t c = Some nc"
    and lp: "\<And>a. listprev nc = Some a \<Longrightarrow> cells t a \<noteq> None"
    and ln: "\<And>a. listnext nc = Some a \<Longrightarrow> cells t a \<noteq> None"
  shows "relink_list c t = Some (listnext nc, list_relinked nc t)"
proof (cases "listprev nc")
  case None
  show ?thesis
  proof (cases "listnext nc")
    case n: None
    with None c show ?thesis
      by (simp add: relink_list_def Let_def)
        (auto simp: list_relinked_def fun_eq_iff option.map_ident
          intro!: RTPKeyHashTable.equality)
  next
    case n: (Some a2)
    with ln obtain n2 where n2: "cells t a2 = Some n2" by auto
    with None n c show ?thesis
      by (simp add: relink_list_def Let_def modify_Some)
        (auto simp: list_relinked_def fun_eq_iff option.map_ident
          intro!: RTPKeyHashTable.equality)
  qed
next
  case (Some a1)
  with lp obtain n1 where n1: "cells t a1 = Some n1" by auto
  show ?thesis
  proof (cases "listnext nc")
    case n: None
    with Some c n1 show ?thesis
      by (simp add: relink_list_def Let_def modify_Some)
        (auto simp: list_relinked_def fun_eq_iff option.map_ident
          intro!: RTPKeyHashTable.equality)
  next
    case n: (Some a2)
    with ln obtain n2 where n2: "cells t a2 = Some n2" by auto
    with Some n c n1 show ?thesis
      by (simp add: relink_list_def Let_def modify_def)
        (auto simp: list_relinked_def fun_eq_iff option.map_ident
          intro!: RTPKeyHashTable.equality)
  qed
qed

definition removed :: "addr \<Rightarrow> ('k, 'e) RTPKeyHashTable \<Rightarrow> ('k, 'e) RTPKeyHashTable" where
  "removed c t =
     (case cells t c of
        None \<Rightarrow> t
      | Some nc \<Rightarrow>
          (RTPDelete c (list_relinked nc (bucket_relinked nc t)))
            \<lparr>curhashelem := Value (listnext nc)\<rparr>)"

lemma DeleteCurrentElement_removed:
  assumes cur: "curhashelem t = Value (Some c)" and c: "cells t c = Some nc"
    and idx: "0 \<le> hashindex nc"
    and hp: "\<And>a. hashprev nc = Some a \<Longrightarrow> a \<noteq> c \<and> cells t a \<noteq> None"
    and hn: "\<And>a. hashnext nc = Some a \<Longrightarrow> a \<noteq> c \<and> cells t a \<noteq> None"
    and lp: "\<And>a. listprev nc = Some a \<Longrightarrow> cells t a \<noteq> None"
    and ln: "\<And>a. listnext nc = Some a \<Longrightarrow> cells t a \<noteq> None"
  shows "DeleteCurrentElement t = Some (Success, removed c t)"
proof -
  let ?t1 = "bucket_relinked nc t"
  have 1: "relink_bucket c t = Some ?t1"
    using c idx hp hn by (intro relink_bucket_result) auto
  have c1: "cells ?t1 c = Some nc"
    using c hp hn by (auto simp: bucket_relinked_def)
  have live: "cells ?t1 a \<noteq> None" if "cells t a \<noteq> None" for a
    using that by (simp add: bucket_relinked_def)
  have 2: "relink_list c ?t1 = Some (listnext nc, list_relinked nc ?t1)"
    using c1 lp ln live by (intro relink_list_result) auto
  show ?thesis
    using cur c 1 2 by (simp add: DeleteCurrentElement_def removed_def read_cur_def)
qed

lemma removed_gone: "cells t c = Some nc \<Longrightarrow> cells (removed c t) c = None"
  by (simp add: removed_def RTPDelete_def)

lemma removed_fields:
  assumes "cells t c = Some nc"
  shows "table (removed c t) =
           (if hashprev nc = None then (table t)(hashindex nc := hashnext nc) else table t)"
    and "firsthashelem (removed c t) = (if listprev nc = None then listnext nc else firsthashelem t)"
    and "lasthashelem (removed c t) = (if listnext nc = None then listprev nc else lasthashelem t)"
    and "curhashelem (removed c t) = Value (listnext nc)"
    and "next_free (removed c t) = next_free t"
    and "alloc_script (removed c t) = alloc_script t"
  using assms
  by (simp_all add: removed_def RTPDelete_def list_relinked_def bucket_relinked_def)

lemma removed_old:
  assumes "cells t c = Some nc" and "b \<noteq> c"
  shows "map_option key (cells (removed c t) b) = map_option key (cells t b)"
    and "map_option element (cells (removed c t) b) = map_option element (cells t b)"
    and "map_option hashindex (cells (removed c t) b) = map_option hashindex (cells t b)"
    and "hashprev nc \<noteq> Some b \<Longrightarrow>
           map_option hashnext (cells (removed c t) b) = map_option hashnext (cells t b)"
    and "hashprev nc = Some b \<Longrightarrow> cells t b \<noteq> None \<Longrightarrow>
           map_option hashnext (cells (removed c t) b) = Some (hashnext nc)"
    and "hashnext nc \<noteq> Some b \<Longrightarrow>
           map_option hashprev (cells (removed c t) b) = map_option hashprev (cells t b)"
    and "hashnext nc = Some b \<Longrightarrow> cells t b \<noteq> None \<Longrightarrow>
           map_option hashprev (cells (removed c t) b) = Some (hashprev nc)"
    and "listprev nc \<noteq> Some b \<Longrightarrow>
           map_option listnext (cells (removed c t) b) = map_option listnext (cells t b)"
    and "listprev nc = Some b \<Longrightarrow> cells t b \<noteq> None \<Longrightarrow>
           map_option listnext (cells (removed c t) b) = Some (listnext nc)"
    and "listnext nc \<noteq> Some b \<Longrightarrow>
           map_option listprev (cells (removed c t) b) = map_option listprev (cells t b)"
    and "listnext nc = Some b \<Longrightarrow> cells t b \<noteq> None \<Longrightarrow>
           map_option listprev (cells (removed c t) b) = Some (listprev nc)"
  using assms
  by (auto simp: removed_def RTPDelete_def list_relinked_def bucket_relinked_def
      option.map_comp o_def)

lemma last_opt_None: "last_opt xs = None \<longleftrightarrow> xs = []"
  by (cases xs rule: rev_cases) simp_all

lemma first_opt_None: "first_opt xs = None \<longleftrightarrow> xs = []"
  by (cases xs) simp_all

text \<open>Taking \<open>c\<close> out of a doubly linked list.\<close>

lemma dlist_unlink:
  assumes dl: "dlist nxt prv h p (ys @ c # zs) l" and d: "distinct (ys @ c # zs)"
    and c: "h c = Some nc"
    and n_same: "\<And>a. a \<in> set ys \<union> set zs \<Longrightarrow> prv nc \<noteq> Some a \<Longrightarrow>
                   map_option nxt (h' a) = map_option nxt (h a)"
    and n_set: "\<And>a. a \<in> set ys \<union> set zs \<Longrightarrow> prv nc = Some a \<Longrightarrow>
                   map_option nxt (h' a) = Some (nxt nc)"
    and p_same: "\<And>a. a \<in> set ys \<union> set zs \<Longrightarrow> nxt nc \<noteq> Some a \<Longrightarrow>
                   map_option prv (h' a) = map_option prv (h a)"
    and p_set: "\<And>a. a \<in> set ys \<union> set zs \<Longrightarrow> nxt nc = Some a \<Longrightarrow>
                   map_option prv (h' a) = Some (prv nc)"
  shows "nxt nc = first_opt zs" and "prv nc = last_opt ys"
    and "dlist nxt prv h' (if prv nc = None then nxt nc else p) (ys @ zs)
           (if nxt nc = None then prv nc else l)"
proof -
  have fwd: "path nxt h p (ys @ c # zs) None"
    and bwd: "path prv h l (rev zs @ c # rev ys) None"
    using dl by (simp_all add: dlist_def)
  from path_at [OF fwd] c show nx: "nxt nc = first_opt zs"
    by auto
  from path_at [OF bwd] c show pv: "prv nc = last_opt ys"
    by (auto simp: first_opt_rev)
  have dy: "distinct ys" and dz: "distinct zs" and yz: "set ys \<inter> set zs = {}"
    using d by auto
  have F0: "path nxt h' (if ys = [] then first_opt zs else p) (ys @ zs) None"
  proof (rule path_unlink [OF fwd d])
    fix a assume a: "a \<in> set (butlast ys) \<union> set zs"
    have "prv nc \<noteq> Some a"
    proof
      assume eq: "prv nc = Some a"
      then have ne: "ys \<noteq> []" and "a = last ys"
        using pv last_opt_None [of ys] last_opt_last [of ys] by auto
      then have "a \<in> set ys"
        by simp
      with a \<open>a = last ys\<close> last_butlast_distinct [OF dy, of a] yz show False
        by auto
    qed
    moreover have "a \<in> set ys \<union> set zs"
      using a by (auto dest: in_set_butlastD)
    ultimately show "map_option nxt (h' a) = map_option nxt (h a)"
      by (intro n_same)
  next
    assume ne: "ys \<noteq> []"
    then have "prv nc = Some (last ys)"
      using pv last_opt_last by metis
    moreover have "last ys \<in> set ys \<union> set zs"
      using ne by simp
    ultimately show "map_option nxt (h' (last ys)) = Some (first_opt zs)"
      using n_set [of "last ys"] nx by simp
  qed
  have "(ys = []) = (prv nc = None)"
    using pv last_opt_None [of ys] by simp
  with F0 nx have F: "path nxt h' (if prv nc = None then nxt nc else p) (ys @ zs) None"
    by (auto split: if_splits)
  have B0: "path prv h' (if rev zs = [] then first_opt (rev ys) else l) (rev zs @ rev ys) None"
  proof (rule path_unlink [OF bwd])
    show "distinct (rev zs @ c # rev ys)"
      using d by auto
  next
    fix a assume a: "a \<in> set (butlast (rev zs)) \<union> set (rev ys)"
    have "nxt nc \<noteq> Some a"
    proof
      assume eq: "nxt nc = Some a"
      then have ne: "zs \<noteq> []" and "a = hd zs"
        using nx first_opt_None [of zs] first_opt_hd [of zs] by auto
      then have "a = last (rev zs)" "a \<in> set zs"
        by (simp_all add: last_rev)
      with a last_butlast_distinct [of "rev zs" a] dz yz show False
        by auto
    qed
    moreover have "a \<in> set ys \<union> set zs"
      using a in_set_butlastD [of a "rev zs"] by auto
    ultimately show "map_option prv (h' a) = map_option prv (h a)"
      by (intro p_same)
  next
    assume ne: "rev zs \<noteq> []"
    then have "nxt nc = Some (last (rev zs))"
      using nx first_opt_hd [of zs] by (simp add: last_rev)
    moreover have "last (rev zs) \<in> set ys \<union> set zs"
      using ne by (simp add: last_rev)
    ultimately show "map_option prv (h' (last (rev zs))) = Some (first_opt (rev ys))"
      using p_set [of "last (rev zs)"] pv by (simp add: first_opt_rev)
  qed
  have "(rev zs = []) = (nxt nc = None)"
    using nx first_opt_None [of zs] by simp
  moreover have "first_opt (rev ys) = prv nc"
    using pv by (simp add: first_opt_rev)
  ultimately have B: "path prv h' (if nxt nc = None then prv nc else l) (rev (ys @ zs)) None"
    using B0 by (auto split: if_splits)
  from F B show "dlist nxt prv h' (if prv nc = None then nxt nc else p) (ys @ zs)
           (if nxt nc = None then prv nc else l)"
    by (simp only: dlist_def simp_thms)
qed

lemma bucket_split:
  "bucket GetIndex j (ys @ x # zs) =
     bucket GetIndex j zs @ (if GetIndex (fst (snd x)) = j then [x] else []) @ bucket GetIndex j ys"
  by (simp add: bucket_def)

lemma bucket_concat: "bucket GetIndex j (ys @ zs) = bucket GetIndex j zs @ bucket GetIndex j ys"
  by (simp add: bucket_def)

lemma last_opt_unlink:
  "last_opt (xs @ ys) = (if first_opt ys = None then last_opt xs else last_opt (xs @ c # ys))"
  by (cases ys rule: rev_cases)
    (simp_all add: last_opt_append last_opt_Cons first_opt_append first_opt_None)

lemma consistent_entry:
  assumes "consistent GetIndex hashsize t xs" and "x \<in> set xs"
  shows "fst x < next_free t" and "entry_ok GetIndex hashsize (cells t) x"
  using assms unfolding consistent_def by blast+

lemma consistent_bucket:
  assumes "consistent GetIndex hashsize t xs" and "0 \<le> i" and "i < hashsize"
  shows "dlist hashnext hashprev (cells t) (table t i) (map fst (bucket GetIndex i xs))
           (last_opt (map fst (bucket GetIndex i xs)))"
  using assms unfolding consistent_def by blast

lemma consistent_removed:
  assumes c: "consistent GetIndex hashsize t (ys @ (c, kc, ec) # zs)"
  shows "consistent GetIndex hashsize (removed c t) (ys @ zs)"
proof -
  let ?x = "(c, kc, ec)"
  let ?xs = "ys @ ?x # zs"
  let ?h = "cells t" and ?t' = "removed c t"
  let ?h' = "cells ?t'"
  let ?ic = "GetIndex kc"
  let ?as = "map fst ys" and ?cs = "map fst zs"
  have d: "distinct (?as @ c # ?cs)"
    using c by (simp add: consistent_def)
  have dk: "distinct (map (fst \<circ> snd) ?xs)"
    using c by (simp add: consistent_def)
  have okc: "entry_ok GetIndex hashsize ?h ?x"
    by (rule consistent_entry(2) [OF c]) simp
  then obtain nc where nc: "?h c = Some nc" "key nc = kc" "hashindex nc = ?ic"
    and ic: "0 \<le> ?ic" "?ic < hashsize"
    by (auto simp: entry_ok_def split: option.splits)
  have live: "\<And>a. a \<in> set ?as \<union> set ?cs \<Longrightarrow> ?h a \<noteq> None"
    using consistent_live [OF c] by fastforce
  have neq: "\<And>a. a \<in> set ?as \<union> set ?cs \<Longrightarrow> a \<noteq> c"
    using d by auto
  note old = removed_old [OF nc(1)]
  note flds = removed_fields [OF nc(1)]

  have c1: "distinct (map fst (ys @ zs))"
    using d by simp
  have c2: "distinct (map (fst \<circ> snd) (ys @ zs))"
    using dk by simp
  have c3: "dom ?h' = fst ` set (ys @ zs)"
  proof -
    have "dom ?h' = dom ?h - {c}"
      using nc(1)
      by (auto simp: removed_def RTPDelete_def list_relinked_def bucket_relinked_def dom_def)
    moreover have "dom ?h = fst ` set ?xs"
      using c by (simp add: consistent_def)
    moreover have "c \<notin> fst ` set (ys @ zs)"
      using d by auto
    ultimately show ?thesis by auto
  qed
  have c4: "\<forall>x \<in> set (ys @ zs). fst x < next_free ?t' \<and> entry_ok GetIndex hashsize ?h' x"
  proof
    fix x assume x: "x \<in> set (ys @ zs)"
    then have xin: "x \<in> set ?xs" by auto
    from x have ne: "fst x \<noteq> c"
      using neq [of "fst x"] by auto
    from xin have lt: "fst x < next_free t" and ok: "entry_ok GetIndex hashsize ?h x"
      by (rule consistent_entry [OF c])+
    from ok obtain n where n: "?h (fst x) = Some n"
      by (auto simp: entry_ok_def split: option.splits)
    from old(1-3) [OF ne] n obtain n' where
      "?h' (fst x) = Some n'" "key n' = key n" "element n' = element n"
      "hashindex n' = hashindex n"
      by auto
    with ok n lt show "fst x < next_free ?t' \<and> entry_ok GetIndex hashsize ?h' x"
      by (simp add: entry_ok_def flds)
  qed
  have c5: "dlist listnext listprev ?h' (firsthashelem ?t') (map fst (ys @ zs)) (lasthashelem ?t')"
  proof -
    have "dlist listnext listprev ?h (firsthashelem t) (?as @ c # ?cs) (lasthashelem t)"
      using c by (simp add: consistent_def)
    from dlist_unlink(3) [OF this d nc(1), of ?h']
    show ?thesis
      using old(8-11) neq live by (simp add: flds)
  qed
  have c6: "dlist hashnext hashprev ?h' (table ?t' j) (map fst (bucket GetIndex j (ys @ zs)))
      (last_opt (map fst (bucket GetIndex j (ys @ zs))))"
    if j: "0 \<le> j" "j < hashsize" for j
  proof -
    let ?B1 = "map fst (bucket GetIndex j zs)" and ?B2 = "map fst (bucket GetIndex j ys)"
    have sub: "set ?B1 \<union> set ?B2 \<subseteq> set ?as \<union> set ?cs"
      by (auto simp: bucket_set)
    have oldj: "dlist hashnext hashprev ?h (table t j) (map fst (bucket GetIndex j ?xs))
        (last_opt (map fst (bucket GetIndex j ?xs)))"
      using c j by (rule consistent_bucket)
    have dj: "distinct (map fst (bucket GetIndex j ?xs))"
      using d by (intro bucket_distinct) simp
    show ?thesis
    proof (cases "j = ?ic")
      case True
      then have bk: "map fst (bucket GetIndex j ?xs) = ?B1 @ c # ?B2"
        by (simp add: bucket_split)
      have in_old: "a \<noteq> c \<and> ?h a \<noteq> None" if "a \<in> set ?B1 \<union> set ?B2" for a
      proof -
        from sub that have "a \<in> set ?as \<union> set ?cs" by (rule subsetD)
        then show ?thesis using neq [of a] live [of a] by simp
      qed
      have u1: "map_option hashnext (?h' a) = map_option hashnext (?h a)"
        if "a \<in> set ?B1 \<union> set ?B2" "hashprev nc \<noteq> Some a" for a
        using in_old [OF that(1)] that(2) by (intro old(4)) simp_all
      have u2: "map_option hashnext (?h' a) = Some (hashnext nc)"
        if "a \<in> set ?B1 \<union> set ?B2" "hashprev nc = Some a" for a
        using in_old [OF that(1)] that(2) by (intro old(5)) simp_all
      have u3: "map_option hashprev (?h' a) = map_option hashprev (?h a)"
        if "a \<in> set ?B1 \<union> set ?B2" "hashnext nc \<noteq> Some a" for a
        using in_old [OF that(1)] that(2) by (intro old(6)) simp_all
      have u4: "map_option hashprev (?h' a) = Some (hashprev nc)"
        if "a \<in> set ?B1 \<union> set ?B2" "hashnext nc = Some a" for a
        using in_old [OF that(1)] that(2) by (intro old(7)) simp_all
      note cond = dlist_unlink [OF oldj [unfolded bk] dj [unfolded bk] nc(1) u1 u2 u3 u4]
      have X1: "hashnext nc = first_opt ?B2" by (rule cond(1))
      have X2: "hashprev nc = last_opt ?B1" by (rule cond(2))
      have T: "table ?t' j = (if hashprev nc = None then hashnext nc else table t j)"
        using True nc(3) by (simp add: flds)
      have L: "last_opt (?B1 @ ?B2) =
          (if hashnext nc = None then hashprev nc else last_opt (?B1 @ c # ?B2))"
      proof -
        have "last_opt (?B1 @ ?B2) =
            (if first_opt ?B2 = None then last_opt ?B1 else last_opt (?B1 @ c # ?B2))"
          by (rule last_opt_unlink)
        then show ?thesis
          by (simp only: X1 X2)
      qed
      have bk2: "map fst (bucket GetIndex j (ys @ zs)) = ?B1 @ ?B2"
        by (simp add: bucket_concat)
      show ?thesis
        unfolding bk2 T L by (rule cond(3))
    next
      case False
      then have bk: "bucket GetIndex j ?xs = bucket GetIndex j (ys @ zs)"
        by (auto simp: bucket_def)
      let ?bs = "map fst (bucket GetIndex j (ys @ zs))"
      have paths: "path hashnext ?h (table t j) ?bs None"
        "path hashprev ?h (last_opt ?bs) (rev ?bs) None"
        using oldj by (simp_all add: dlist_def bk)
      have nb: "\<And>a. hashprev nc = Some a \<or> hashnext nc = Some a \<Longrightarrow> a \<notin> set ?bs"
      proof
        fix a assume a: "hashprev nc = Some a \<or> hashnext nc = Some a" and ain: "a \<in> set ?bs"
        let ?C1 = "map fst (bucket GetIndex ?ic zs)" and ?C2 = "map fst (bucket GetIndex ?ic ys)"
        have oldi: "dlist hashnext hashprev ?h (table t ?ic) (?C1 @ c # ?C2)
            (last_opt (?C1 @ c # ?C2))"
          using consistent_bucket [OF c ic] by (simp add: bucket_split)
        then have "path hashnext ?h (table t ?ic) (?C1 @ c # ?C2) None"
          "path hashprev ?h (last_opt (?C1 @ c # ?C2)) (rev ?C2 @ c # rev ?C1) None"
          by (simp_all add: dlist_def)
        from path_at [OF this(1)] path_at [OF this(2)] nc(1)
        have "hashnext nc = first_opt ?C2" "hashprev nc = first_opt (rev ?C1)"
          by auto
        with a have "a \<in> set ?C1 \<union> set ?C2"
          using first_opt_in [of ?C2 a] first_opt_in [of "rev ?C1" a] by auto
        then obtain x where x: "x \<in> set (bucket GetIndex ?ic ?xs)" "fst x = a"
          by (auto simp: bucket_split)
        from ain obtain y where y: "y \<in> set (bucket GetIndex j ?xs)" "fst y = a"
          by (auto simp: bk)
        have "distinct (map fst ?xs)"
          using d by simp
        from bucket_apart [OF this x(1) y(1)] False x(2) y(2) show False
          by simp
      qed
      have inb: "\<And>a. a \<in> set ?bs \<Longrightarrow> a \<noteq> c"
        using neq by (auto simp: bucket_set)
      have "path hashnext ?h' (table t j) ?bs None"
      proof (subst path_agree [of ?bs hashnext ?h' ?h])
        fix a assume a: "a \<in> set ?bs"
        then show "map_option hashnext (?h' a) = map_option hashnext (?h a)"
          using nb [of a] inb [of a] by (intro old(4)) auto
      qed (rule paths(1))
      moreover have "path hashprev ?h' (last_opt ?bs) (rev ?bs) None"
      proof (subst path_agree [of "rev ?bs" hashprev ?h' ?h])
        fix a assume a: "a \<in> set (rev ?bs)"
        then show "map_option hashprev (?h' a) = map_option hashprev (?h a)"
          using nb [of a] inb [of a] by (intro old(6)) auto
      qed (rule paths(2))
      moreover have "table ?t' j = table t j"
        using False nc(3) by (simp add: flds)
      ultimately show ?thesis
        by (simp add: dlist_def)
    qed
  qed
  from c1 c2 c3 c4 c5 c6 show ?thesis
    unfolding consistent_def by blast
qed

subsection \<open>The operations on a consistent table\<close>

lemma consistent_cur [simp]:
  "consistent GetIndex hashsize (t\<lparr>curhashelem := p\<rparr>) xs = consistent GetIndex hashsize t xs"
  by (simp add: consistent_def)

lemma consistent_script [simp]:
  "consistent GetIndex hashsize (t\<lparr>alloc_script := r\<rparr>) xs = consistent GetIndex hashsize t xs"
  by (simp add: consistent_def)

lemma dlist_at:
  assumes "dlist nxt prv h p (ys @ c # zs) l" and "h c = Some nc"
  shows "nxt nc = first_opt zs" and "prv nc = last_opt ys"
proof -
  have fwd: "path nxt h p (ys @ c # zs) None"
    and bwd: "path prv h l (rev zs @ c # rev ys) None"
    using assms(1) by (simp_all add: dlist_def)
  from path_at [OF fwd] assms(2) show "nxt nc = first_opt zs"
    by auto
  from path_at [OF bwd] assms(2) show "prv nc = last_opt ys"
    by (auto simp: first_opt_rev)
qed

lemma DeleteCurrentElement_consistent:
  assumes c: "consistent GetIndex hashsize t (ys @ (c, kc, ec) # zs)"
    and cur: "curhashelem t = Value (Some c)"
  shows "DeleteCurrentElement t = Some (Success, removed c t)"
proof -
  let ?xs = "ys @ (c, kc, ec) # zs"
  let ?ic = "GetIndex kc"
  let ?B1 = "map fst (bucket GetIndex ?ic zs)" and ?B2 = "map fst (bucket GetIndex ?ic ys)"
  have d: "distinct (map fst ys @ c # map fst zs)"
    using c by (simp add: consistent_def)
  have "entry_ok GetIndex hashsize (cells t) (c, kc, ec)"
    by (rule consistent_entry(2) [OF c]) simp
  then obtain nc where nc: "cells t c = Some nc" "hashindex nc = ?ic"
    and ic: "0 \<le> ?ic" "?ic < hashsize"
    by (auto simp: entry_ok_def split: option.splits)
  have live: "\<And>a. a \<in> set (map fst ys) \<union> set (map fst zs) \<Longrightarrow> a \<noteq> c \<and> cells t a \<noteq> None"
    using consistent_live [OF c] d by fastforce
  have sub: "set ?B1 \<union> set ?B2 \<subseteq> set (map fst ys) \<union> set (map fst zs)"
    by (auto simp: bucket_set)
  have "dlist listnext listprev (cells t) (firsthashelem t) (map fst ys @ c # map fst zs)
      (lasthashelem t)"
    using c by (simp add: consistent_def)
  from dlist_at [OF this nc(1)]
  have l: "listnext nc = first_opt (map fst zs)" "listprev nc = last_opt (map fst ys)" .
  have "dlist hashnext hashprev (cells t) (table t ?ic) (?B1 @ c # ?B2)
      (last_opt (?B1 @ c # ?B2))"
    using consistent_bucket [OF c ic] by (simp add: bucket_split)
  from dlist_at [OF this nc(1)]
  have h: "hashnext nc = first_opt ?B2" "hashprev nc = last_opt ?B1" .
  show ?thesis
  proof (rule DeleteCurrentElement_removed [OF cur nc(1)])
    show "0 \<le> hashindex nc"
      using nc(2) ic by simp
  next
    fix a assume "hashprev nc = Some a"
    then have "a \<in> set ?B1"
      using h(2) by (intro last_opt_in) simp
    with sub live [of a] show "a \<noteq> c \<and> cells t a \<noteq> None"
      by blast
  next
    fix a assume "hashnext nc = Some a"
    then have "a \<in> set ?B2"
      using h(1) by (intro first_opt_in) simp
    with sub live [of a] show "a \<noteq> c \<and> cells t a \<noteq> None"
      by blast
  next
    fix a assume "listprev nc = Some a"
    then have "a \<in> set (map fst ys)"
      using l(2) by (intro last_opt_in) simp
    with live [of a] show "cells t a \<noteq> None"
      by blast
  next
    fix a assume "listnext nc = Some a"
    then have "a \<in> set (map fst zs)"
      using l(1) by (intro first_opt_in) simp
    with live [of a] show "cells t a \<noteq> None"
      by blast
  qed
qed

lemma removed_cursor:
  assumes c: "consistent GetIndex hashsize t (ys @ (c, kc, ec) # zs)"
  shows "curhashelem (removed c t) = Value (first_opt (map fst zs))"
proof -
  have "entry_ok GetIndex hashsize (cells t) (c, kc, ec)"
    by (rule consistent_entry(2) [OF c]) simp
  then obtain nc where nc: "cells t c = Some nc"
    by (auto simp: entry_ok_def split: option.splits)
  have "dlist listnext listprev (cells t) (firsthashelem t) (map fst ys @ c # map fst zs)
      (lasthashelem t)"
    using c by (simp add: consistent_def)
  from dlist_at(1) [OF this nc] removed_fields(4) [OF nc] show ?thesis
    by simp
qed

lemma removed_script:
  assumes c: "consistent GetIndex hashsize t (ys @ (c, kc, ec) # zs)"
  shows "alloc_script (removed c t) = alloc_script t"
proof -
  have "entry_ok GetIndex hashsize (cells t) (c, kc, ec)"
    by (rule consistent_entry(2) [OF c]) simp
  then obtain nc where nc: "cells t c = Some nc"
    by (auto simp: entry_ok_def split: option.splits)
  from removed_fields(6) [OF nc] show ?thesis .
qed

lemma GotoElement_consistent:
  assumes c: "consistent GetIndex hashsize t xs"
    and i: "0 \<le> GetIndex k" "GetIndex k < hashsize"
  shows "GotoElement GetIndex hashsize k t =
           Some (case entry_of xs k of
                   None \<Rightarrow> (Failure ERR_RTP_KEYHASHTABLE_KEYNOTFOUND, t\<lparr>curhashelem := Value None\<rparr>)
                 | Some x \<Rightarrow> (Success, t\<lparr>curhashelem := Value (Some (fst x))\<rparr>))"
  using consistent_search [OF c i] i
  by (simp add: GotoElement_def Let_def table_at_def split: option.splits)

lemma AddElement_present:
  assumes c: "consistent GetIndex hashsize t xs"
    and i: "0 \<le> GetIndex k" "GetIndex k < hashsize"
    and old: "entry_of xs k = Some x"
  shows "AddElement GetIndex hashsize k e t = Some (Failure ERR_RTP_KEYHASHTABLE_KEYALREADYEXISTS, t)"
  using consistent_search [OF c i] i old
  by (simp add: AddElement_def Let_def table_at_def)

lemma AddElement_out_of_memory:
  assumes c: "consistent GetIndex hashsize t xs"
    and i: "0 \<le> GetIndex k" "GetIndex k < hashsize"
    and new: "entry_of xs k = None"
    and mem: "alloc_script t = True # rest"
  shows "AddElement GetIndex hashsize k e t =
           Some (Failure ERR_RTP_OUTOFMEM, t\<lparr>alloc_script := rest\<rparr>)"
  using consistent_search [OF c i] i new mem
  by (simp add: AddElement_def Let_def table_at_def RTPNew_def)

lemma AddElement_invalid:
  assumes "hashsize \<le> GetIndex k"
  shows "AddElement GetIndex hashsize k e t =
           Some (Failure ERR_RTP_KEYHASHTABLE_FUNCTIONRETURNEDINVALIDHASHINDEX, t)"
  using assms by (simp add: AddElement_def Let_def)

subsection \<open>Traversal\<close>

lemma visit_rest_path:
  assumes "path listnext (cells t) p (map fst xs) None"
    and "\<forall>x \<in> set xs. \<exists>n. cells t (fst x) = Some n \<and> key n = fst (snd x) \<and> element n = snd (snd x)"
    and "curhashelem t = Value p"
  shows "visit_rest t = Some (map snd xs)"
  using assms
proof (induction xs arbitrary: t p)
  case Nil
  then show ?case
    by (subst visit_rest.simps) (simp add: HasCurrentElement_def read_cur_def)
next
  case (Cons x xs)
  from Cons.prems obtain n where n: "p = Some (fst x)" "cells t (fst x) = Some n"
    "key n = fst (snd x)" "element n = snd (snd x)"
    "path listnext (cells t) (listnext n) (map fst xs) None"
    by (auto split: option.splits)
  let ?t' = "t\<lparr>curhashelem := Value (listnext n)\<rparr>"
  have "visit_rest ?t' = Some (map snd xs)"
    using n(5) Cons.prems(2) by (intro Cons.IH [of _ "listnext n"]) simp_all
  with n Cons.prems(3) show ?case
    by (subst visit_rest.simps)
      (simp add: HasCurrentElement_def read_cur_def GetCurrentKey_def GetCurrentElement_def
        GotoNextElement_def)
qed

lemma traverse_consistent:
  assumes c: "consistent GetIndex hashsize t xs"
  shows "traverse t = Some (map snd xs)"
proof -
  have "path listnext (cells (GotoFirstElement t)) (firsthashelem t) (map fst xs) None"
    using c by (simp add: consistent_def dlist_def GotoFirstElement_def)
  moreover have "\<forall>x \<in> set xs. \<exists>n. cells (GotoFirstElement t) (fst x) = Some n \<and>
      key n = fst (snd x) \<and> element n = snd (snd x)"
  proof
    fix x assume "x \<in> set xs"
    then have "entry_ok GetIndex hashsize (cells t) x"
      by (rule consistent_entry(2) [OF c])
    then show "\<exists>n. cells (GotoFirstElement t) (fst x) = Some n \<and>
      key n = fst (snd x) \<and> element n = snd (snd x)"
      by (auto simp: entry_ok_def GotoFirstElement_def split: option.splits)
  qed
  moreover have "curhashelem (GotoFirstElement t) = Value (firsthashelem t)"
    by (simp add: GotoFirstElement_def)
  ultimately show ?thesis
    unfolding traverse_def by (rule visit_rest_path)
qed

subsection \<open>Sequences of operations\<close>

datatype ('k, 'e) operation =
    Add 'k 'e
  | Delete 'k
  | DeleteCurrent
  | GotoFirst
  | GotoNext
  | Goto 'k

fun perform ::
  "('k \<Rightarrow> int) \<Rightarrow> int \<Rightarrow> ('k, 'e) operation \<Rightarrow> ('k, 'e) RTPKeyHashTable
     \<Rightarrow> ('k, 'e) RTPKeyHashTable option" where
  "perform GetIndex hashsize (Add k e) t = map_option snd (AddElement GetIndex hashsize k e t)"
| "perform GetIndex hashsize (Delete k) t = map_option snd (DeleteElement GetIndex hashsize k t)"
| "perform GetIndex hashsize DeleteCurrent t = map_option snd (DeleteCurrentElement t)"
| "perform GetIndex hashsize GotoFirst t = Some (GotoFirstElement t)"
| "perform GetIndex hashsize GotoNext t = GotoNextElement t"
| "perform GetIndex hashsize (Goto k) t = map_option snd (GotoElement GetIndex hashsize k t)"

fun run ::
  "('k \<Rightarrow> int) \<Rightarrow> int \<Rightarrow> ('k, 'e) operation list \<Rightarrow> ('k, 'e) RTPKeyHashTable
     \<Rightarrow> ('k, 'e) RTPKeyHashTable option" where
  "run GetIndex hashsize [] t = Some t"
| "run GetIndex hashsize (x # ops) t =
     (case perform GetIndex hashsize x t of
        None \<Rightarrow> None
      | Some t' \<Rightarrow> run GetIndex hashsize ops t')"

text \<open>
  The container as the specification describes it: an ordered mapping with stable
  traversal in the order of insertion.  It is the list of the stored pairs in the order
  in which they were inserted, with a cursor (the key of the current element, if
  any); \<open>allocations\<close> is the script of the allocations to come, as in the table.
\<close>

record ('k, 'e) ordered_map =
  entries :: "('k \<times> 'e) list"
  cursor :: "'k option"
  allocations :: "bool list"

definition successor_key :: "'k \<Rightarrow> ('k \<times> 'e) list \<Rightarrow> 'k option" where
  "successor_key c es = first_opt (map fst (tl (dropWhile (\<lambda>x. fst x \<noteq> c) es)))"

definition ref_delete_current :: "('k, 'e) ordered_map \<Rightarrow> ('k, 'e) ordered_map" where
  "ref_delete_current s =
     (case cursor s of
        None \<Rightarrow> s
      | Some c \<Rightarrow>
          s\<lparr>entries := filter (\<lambda>x. fst x \<noteq> c) (entries s),
            cursor := successor_key c (entries s)\<rparr>)"

definition ref_goto :: "'k \<Rightarrow> ('k, 'e) ordered_map \<Rightarrow> ('k, 'e) ordered_map" where
  "ref_goto k s = s\<lparr>cursor := (if k \<in> fst ` set (entries s) then Some k else None)\<rparr>"

fun ref_perform ::
  "('k \<Rightarrow> int) \<Rightarrow> int \<Rightarrow> ('k, 'e) operation \<Rightarrow> ('k, 'e) ordered_map \<Rightarrow> ('k, 'e) ordered_map" where
  "ref_perform GetIndex hashsize (Add k e) s =
     (if hashsize \<le> GetIndex k \<or> k \<in> fst ` set (entries s) then s
      else case allocations s of
             True # rest \<Rightarrow> s\<lparr>allocations := rest\<rparr>
           | _ \<Rightarrow> s\<lparr>entries := entries s @ [(k, e)], allocations := tl (allocations s)\<rparr>)"
| "ref_perform GetIndex hashsize (Delete k) s =
     (if hashsize \<le> GetIndex k then s
      else if k \<in> fst ` set (entries s) then ref_delete_current (ref_goto k s)
      else ref_goto k s)"
| "ref_perform GetIndex hashsize DeleteCurrent s = ref_delete_current s"
| "ref_perform GetIndex hashsize GotoFirst s = s\<lparr>cursor := first_opt (map fst (entries s))\<rparr>"
| "ref_perform GetIndex hashsize GotoNext s =
     (case cursor s of
        None \<Rightarrow> s
      | Some c \<Rightarrow> s\<lparr>cursor := successor_key c (entries s)\<rparr>)"
| "ref_perform GetIndex hashsize (Goto k) s =
     (if hashsize \<le> GetIndex k then s else ref_goto k s)"

definition ref_run ::
  "('k \<Rightarrow> int) \<Rightarrow> int \<Rightarrow> ('k, 'e) operation list \<Rightarrow> ('k, 'e) ordered_map \<Rightarrow> ('k, 'e) ordered_map" where
  "ref_run GetIndex hashsize ops s = fold (ref_perform GetIndex hashsize) ops s"

definition ref_new :: "bool list \<Rightarrow> ('k, 'e) ordered_map" where
  "ref_new script = \<lparr>entries = [], cursor = None, allocations = script\<rparr>"

text \<open>
  The table \<open>t\<close> with the entries \<open>xs\<close> stands for the ordered map \<open>s\<close>.  As long as
  \<^verbatim>\<open>curhashelem\<close> is indeterminate nothing is said about the cursor.
\<close>

definition cursor_at :: "(addr \<times> 'k \<times> 'e) list \<Rightarrow> addr option \<Rightarrow> 'k option \<Rightarrow> bool" where
  "cursor_at xs p c =
     (case p of
        None \<Rightarrow> c = None
      | Some a \<Rightarrow> (\<exists>x \<in> set xs. fst x = a \<and> c = Some (fst (snd x))))"

fun cursor_rel :: "(addr \<times> 'k \<times> 'e) list \<Rightarrow> addr option member \<Rightarrow> 'k option \<Rightarrow> bool" where
  "cursor_rel xs Indeterminate c = True"
| "cursor_rel xs (Value p) c = cursor_at xs p c"

definition represents ::
  "('k \<Rightarrow> int) \<Rightarrow> int \<Rightarrow> ('k, 'e) RTPKeyHashTable \<Rightarrow> (addr \<times> 'k \<times> 'e) list
     \<Rightarrow> ('k, 'e) ordered_map \<Rightarrow> bool" where
  "represents GetIndex hashsize t xs s =
     (consistent GetIndex hashsize t xs \<and> entries s = map snd xs \<and>
      allocations s = alloc_script t \<and>
      cursor_rel xs (curhashelem t) (cursor s))"

text \<open>
  When an operation has a defined result: a key must have a hash index that is not
  negative, and \<^verbatim>\<open>DeleteCurrentElement\<close> and \<^verbatim>\<open>GotoNextElement\<close> need a cursor that has
  been assigned (\<open>d\<close>).  An operation \<open>positions\<close> the cursor when it assigns it
  whatever it was.
\<close>

fun usable :: "('k \<Rightarrow> int) \<Rightarrow> ('k, 'e) operation \<Rightarrow> bool \<Rightarrow> bool" where
  "usable GetIndex (Add k e) d = (0 \<le> GetIndex k)"
| "usable GetIndex (Delete k) d = (0 \<le> GetIndex k)"
| "usable GetIndex (Goto k) d = (0 \<le> GetIndex k)"
| "usable GetIndex DeleteCurrent d = d"
| "usable GetIndex GotoNext d = d"
| "usable GetIndex GotoFirst d = True"

fun positions :: "('k \<Rightarrow> int) \<Rightarrow> int \<Rightarrow> ('k, 'e) operation \<Rightarrow> bool" where
  "positions GetIndex hashsize (Delete k) = (GetIndex k < hashsize)"
| "positions GetIndex hashsize (Goto k) = (GetIndex k < hashsize)"
| "positions GetIndex hashsize GotoFirst = True"
| "positions GetIndex hashsize _ = False"

fun cursor_known :: "('k \<Rightarrow> int) \<Rightarrow> int \<Rightarrow> ('k, 'e) operation list \<Rightarrow> bool \<Rightarrow> bool" where
  "cursor_known GetIndex hashsize [] d = True"
| "cursor_known GetIndex hashsize (x # ops) d =
     (usable GetIndex x d \<and> cursor_known GetIndex hashsize ops (d \<or> positions GetIndex hashsize x))"

lemma split_at_entry:
  assumes "x \<in> set xs"
  shows "\<exists>ys zs. xs = ys @ x # zs"
  using assms by (rule split_list)

lemma ref_remove:
  assumes "distinct (map (fst \<circ> snd) (ys @ x # zs))"
  shows "filter (\<lambda>y. fst y \<noteq> fst (snd x)) (map snd (ys @ x # zs)) = map snd (ys @ zs)"
    and "successor_key (fst (snd x)) (map snd (ys @ x # zs)) = first_opt (map (fst \<circ> snd) zs)"
proof -
  have ys: "\<forall>y \<in> set ys. fst (snd y) \<noteq> fst (snd x)"
    and zs: "\<forall>z \<in> set zs. fst (snd z) \<noteq> fst (snd x)"
    using assms by (auto simp: image_iff)
  from ys have 1: "filter (\<lambda>y. fst y \<noteq> fst (snd x)) (map snd ys) = map snd ys"
    by (induction ys) auto
  from zs have 2: "filter (\<lambda>y. fst y \<noteq> fst (snd x)) (map snd zs) = map snd zs"
    by (induction zs) auto
  from 1 2 show "filter (\<lambda>y. fst y \<noteq> fst (snd x)) (map snd (ys @ x # zs)) = map snd (ys @ zs)"
    by simp
  from ys have "dropWhile (\<lambda>y. fst y \<noteq> fst (snd x)) (map snd (ys @ x # zs)) = map snd (x # zs)"
    by (induction ys) auto
  then show "successor_key (fst (snd x)) (map snd (ys @ x # zs)) = first_opt (map (fst \<circ> snd) zs)"
    by (simp add: successor_key_def)
qed

lemma cursor_at_first:
  "set zs \<subseteq> set xs \<Longrightarrow> cursor_at xs (first_opt (map fst zs)) (first_opt (map (fst \<circ> snd) zs))"
  by (cases zs) (auto simp: cursor_at_def)

lemma keys_entry_of:
  "k \<in> fst ` set (map snd xs) \<longleftrightarrow> entry_of xs k \<noteq> None"
  using entry_of_None [of xs k] by (auto simp: image_iff)

subsection \<open>Each operation keeps the table in step with the ordered map\<close>

lemma cursor_at_mono: "cursor_at xs p c \<Longrightarrow> set xs \<subseteq> set xs' \<Longrightarrow> cursor_at xs' p c"
  by (auto simp: cursor_at_def split: option.splits)

lemma cursor_rel_mono: "cursor_rel xs m c \<Longrightarrow> set xs \<subseteq> set xs' \<Longrightarrow> cursor_rel xs' m c"
  by (cases m) (auto intro: cursor_at_mono)

lemma delete_at_represents:
  assumes c: "consistent GetIndex hashsize t xs" and x: "x \<in> set xs"
    and cur: "curhashelem t = Value (Some (fst x))"
    and s: "entries s = map snd xs" "allocations s = alloc_script t" "cursor s = Some (fst (snd x))"
  shows "\<exists>t' xs'. DeleteCurrentElement t = Some (Success, t') \<and>
           represents GetIndex hashsize t' xs' (ref_delete_current s)"
proof -
  from x obtain ys zs where xs: "xs = ys @ x # zs"
    by (blast dest: split_list)
  obtain a kc ec where xeq: "x = (a, kc, ec)"
    by (cases x) auto
  have c': "consistent GetIndex hashsize t (ys @ (a, kc, ec) # zs)"
    using c xs xeq by simp
  have dk: "distinct (map (fst \<circ> snd) (ys @ x # zs))"
    using c xs unfolding consistent_def by blast
  have 1: "DeleteCurrentElement t = Some (Success, removed a t)"
    using cur xeq by (intro DeleteCurrentElement_consistent [OF c']) simp
  have 2: "consistent GetIndex hashsize (removed a t) (ys @ zs)"
    by (rule consistent_removed [OF c'])
  have 3: "entries (ref_delete_current s) = map snd (ys @ zs)"
    using s xs ref_remove(1) [OF dk] by (simp add: ref_delete_current_def)
  have 4: "allocations (ref_delete_current s) = alloc_script (removed a t)"
    using s removed_script [OF c'] by (simp add: ref_delete_current_def)
  have 5: "cursor (ref_delete_current s) = first_opt (map (fst \<circ> snd) zs)"
    using s xs ref_remove(2) [OF dk] by (simp add: ref_delete_current_def)
  have 6: "curhashelem (removed a t) = Value (first_opt (map fst zs))"
    by (rule removed_cursor [OF c'])
  have "cursor_at (ys @ zs) (first_opt (map fst zs)) (first_opt (map (fst \<circ> snd) zs))"
    by (rule cursor_at_first) simp
  with 2 3 4 5 6 have "represents GetIndex hashsize (removed a t) (ys @ zs) (ref_delete_current s)"
    by (simp add: represents_def)
  with 1 show ?thesis by blast
qed

lemma added_unchanged:
  "curhashelem (added i k e t) = curhashelem t"
  "alloc_script (added i k e t) = tl (alloc_script t)"
  by (simp_all add: added_def Let_def)

lemma Add_represents:
  assumes r: "represents GetIndex hashsize t xs s" and i: "0 \<le> GetIndex k"
  shows "\<exists>t' xs'. perform GetIndex hashsize (Add k e) t = Some t' \<and>
           represents GetIndex hashsize t' xs' (ref_perform GetIndex hashsize (Add k e) s)"
proof -
  from r have c: "consistent GetIndex hashsize t xs" and en: "entries s = map snd xs"
    and al: "allocations s = alloc_script t"
    by (simp_all add: represents_def)
  show ?thesis
  proof (cases "hashsize \<le> GetIndex k")
    case True
    with r show ?thesis
      by (auto simp: AddElement_invalid)
  next
    case False
    then have lt: "GetIndex k < hashsize" by simp
    show ?thesis
    proof (cases "entry_of xs k")
      case (Some x)
      then have "k \<in> fst ` set (entries s)"
        using keys_entry_of [of k xs] en by simp
      with r AddElement_present [OF c i lt Some] show ?thesis
        by auto
    next
      case None
      then have notin: "k \<notin> fst ` set (entries s)"
        using keys_entry_of [of k xs] en by simp
      show ?thesis
      proof (cases "\<exists>rest. alloc_script t = True # rest")
        case True
        then obtain rest where rest: "alloc_script t = True # rest" by blast
        have "represents GetIndex hashsize (t\<lparr>alloc_script := rest\<rparr>) xs (s\<lparr>allocations := rest\<rparr>)"
          using r by (simp add: represents_def)
        with AddElement_out_of_memory [OF c i lt None rest] notin False al rest show ?thesis
          by auto
      next
        case mem: False
        let ?t' = "added (GetIndex k) k e t"
        let ?xs' = "xs @ [(next_free t, k, e)]"
        let ?s' = "s\<lparr>entries := entries s @ [(k, e)], allocations := tl (allocations s)\<rparr>"
        have 1: "AddElement GetIndex hashsize k e t = Some (Success, ?t')"
          by (rule AddElement_added [OF c i lt None mem])
        have 2: "consistent GetIndex hashsize ?t' ?xs'"
          by (rule consistent_added [OF c i lt None])
        have 3: "cursor_rel ?xs' (curhashelem ?t') (cursor ?s')"
          using r cursor_rel_mono [of xs "curhashelem t" "cursor s" ?xs']
          by (auto simp: represents_def added_unchanged)
        have "represents GetIndex hashsize ?t' ?xs' ?s'"
          using 2 3 en al by (simp add: represents_def added_unchanged)
        moreover have "ref_perform GetIndex hashsize (Add k e) s = ?s'"
          using notin False mem al by (auto split: list.splits bool.splits)
        ultimately show ?thesis
          using 1 by auto
      qed
    qed
  qed
qed

lemma Goto_represents:
  assumes r: "represents GetIndex hashsize t xs s" and i: "0 \<le> GetIndex k"
  shows "\<exists>st t'. GotoElement GetIndex hashsize k t = Some (st, t') \<and>
           represents GetIndex hashsize t' xs (ref_perform GetIndex hashsize (Goto k) s) \<and>
           (st = Success \<longrightarrow> (\<exists>x \<in> set xs. fst (snd x) = k \<and> curhashelem t' = Value (Some (fst x)))) \<and>
           (st \<noteq> Success \<and> GetIndex k < hashsize \<longrightarrow> k \<notin> fst ` set (entries s))"
proof -
  from r have c: "consistent GetIndex hashsize t xs" and en: "entries s = map snd xs"
    and al: "allocations s = alloc_script t"
    by (simp_all add: represents_def)
  show ?thesis
  proof (cases "hashsize \<le> GetIndex k")
    case True
    with r show ?thesis
      by (simp add: GotoElement_def Let_def)
  next
    case False
    then have lt: "GetIndex k < hashsize" by simp
    note g = GotoElement_consistent [OF c i lt]
    show ?thesis
    proof (cases "entry_of xs k")
      case None
      then have "k \<notin> fst ` set (entries s)"
        using keys_entry_of [of k xs] en by simp
      with g None False c en al show ?thesis
        by (simp add: represents_def ref_goto_def cursor_at_def)
    next
      case (Some x)
      then have x: "x \<in> set xs" "fst (snd x) = k"
        by (auto dest: entry_of_Some)
      then have "k \<in> fst ` set (entries s)"
        using keys_entry_of [of k xs] en Some by simp
      with g Some False c en al x show ?thesis
        by (auto simp: represents_def ref_goto_def cursor_at_def)
    qed
  qed
qed

lemma Delete_represents:
  assumes r: "represents GetIndex hashsize t xs s" and i: "0 \<le> GetIndex k"
  shows "\<exists>t' xs'. perform GetIndex hashsize (Delete k) t = Some t' \<and>
           represents GetIndex hashsize t' xs' (ref_perform GetIndex hashsize (Delete k) s) \<and>
           (curhashelem t \<noteq> Indeterminate \<or> GetIndex k < hashsize
              \<longrightarrow> curhashelem t' \<noteq> Indeterminate)"
proof (cases "hashsize \<le> GetIndex k")
  case True
  with r show ?thesis
    by (auto simp: DeleteElement_def GotoElement_def Let_def)
next
  case False
  from Goto_represents [OF r i, of ] obtain st t1 where
    g: "GotoElement GetIndex hashsize k t = Some (st, t1)"
    and r1: "represents GetIndex hashsize t1 xs (ref_perform GetIndex hashsize (Goto k) s)"
    and found: "st = Success \<longrightarrow>
      (\<exists>x \<in> set xs. fst (snd x) = k \<and> curhashelem t1 = Value (Some (fst x)))"
    and missing: "st \<noteq> Success \<and> GetIndex k < hashsize \<longrightarrow> k \<notin> fst ` set (entries s)"
    by blast
  from r have en: "entries s = map snd xs"
    by (simp add: represents_def)
  have r1': "represents GetIndex hashsize t1 xs (ref_goto k s)"
    using r1 False by simp
  show ?thesis
  proof (cases st)
    case (Failure e)
    then have "k \<notin> fst ` set (entries s)"
      using missing False by simp
    moreover have "curhashelem t1 \<noteq> Indeterminate"
      using g False i GotoElement_consistent [of GetIndex hashsize t xs k] r
      by (auto simp: represents_def split: option.splits)
    ultimately show ?thesis
      using g Failure r1' False by (auto simp: DeleteElement_def)
  next
    case Success
    with found obtain x where x: "x \<in> set xs" "fst (snd x) = k"
      "curhashelem t1 = Value (Some (fst x))"
      by blast
    then have kin: "k \<in> fst ` set (entries s)"
      using en by (force simp: image_iff)
    from r1' have c1: "consistent GetIndex hashsize t1 xs"
      and s1: "entries (ref_goto k s) = map snd xs" "allocations (ref_goto k s) = alloc_script t1"
      by (simp_all add: represents_def)
    have "cursor (ref_goto k s) = Some (fst (snd x))"
      using kin x(2) by (simp add: ref_goto_def)
    from delete_at_represents [OF c1 x(1) x(3) s1 this] obtain t' xs' where
      d: "DeleteCurrentElement t1 = Some (Success, t')"
      "represents GetIndex hashsize t' xs' (ref_delete_current (ref_goto k s))"
      by blast
    have "curhashelem t' \<noteq> Indeterminate"
      using d(1) x(3)
      by (auto simp: DeleteCurrentElement_def read_cur_def
          split: option.splits Option.bind_splits prod.splits)
    with d g Success kin False show ?thesis
      by (auto simp: DeleteElement_def)
  qed
qed

lemma DeleteCurrent_represents:
  assumes r: "represents GetIndex hashsize t xs s" and d: "curhashelem t \<noteq> Indeterminate"
  shows "\<exists>t' xs'. perform GetIndex hashsize DeleteCurrent t = Some t' \<and>
           represents GetIndex hashsize t' xs' (ref_perform GetIndex hashsize DeleteCurrent s) \<and>
           curhashelem t' \<noteq> Indeterminate"
proof -
  from d obtain p where p: "curhashelem t = Value p"
    by (cases "curhashelem t") auto
  with r have at: "cursor_at xs p (cursor s)"
    and c: "consistent GetIndex hashsize t xs"
    and s: "entries s = map snd xs" "allocations s = alloc_script t"
    by (simp_all add: represents_def)
  show ?thesis
  proof (cases p)
    case None
    with at have "cursor s = None"
      by (simp add: cursor_at_def)
    with r p None show ?thesis
      by (auto simp: DeleteCurrentElement_def read_cur_def ref_delete_current_def)
  next
    case (Some a)
    with at obtain x where x: "x \<in> set xs" "fst x = a" "cursor s = Some (fst (snd x))"
      by (auto simp: cursor_at_def)
    have cur: "curhashelem t = Value (Some (fst x))"
      using p Some x(2) by simp
    from delete_at_represents [OF c x(1) cur s x(3)] obtain t' xs' where
      del: "DeleteCurrentElement t = Some (Success, t')"
      "represents GetIndex hashsize t' xs' (ref_delete_current s)"
      by blast
    have "curhashelem t' \<noteq> Indeterminate"
      using del(1) cur
      by (auto simp: DeleteCurrentElement_def read_cur_def
          split: option.splits Option.bind_splits prod.splits)
    with del show ?thesis
      by auto
  qed
qed

lemma GotoFirst_represents:
  assumes r: "represents GetIndex hashsize t xs s"
  shows "represents GetIndex hashsize (GotoFirstElement t) xs
           (ref_perform GetIndex hashsize GotoFirst s) \<and>
         curhashelem (GotoFirstElement t) \<noteq> Indeterminate"
proof -
  from r have c: "consistent GetIndex hashsize t xs" and s: "entries s = map snd xs"
    "allocations s = alloc_script t"
    by (simp_all add: represents_def)
  have "cursor_at xs (first_opt (map fst xs)) (first_opt (map (fst \<circ> snd) xs))"
    by (rule cursor_at_first) simp
  with c s consistent_ends(1) [OF c] show ?thesis
    by (simp add: represents_def GotoFirstElement_def)
qed

lemma GotoNext_represents:
  assumes r: "represents GetIndex hashsize t xs s" and d: "curhashelem t \<noteq> Indeterminate"
  shows "\<exists>t'. perform GetIndex hashsize GotoNext t = Some t' \<and>
           represents GetIndex hashsize t' xs (ref_perform GetIndex hashsize GotoNext s) \<and>
           curhashelem t' \<noteq> Indeterminate"
proof -
  from d obtain p where p: "curhashelem t = Value p"
    by (cases "curhashelem t") auto
  with r have at: "cursor_at xs p (cursor s)"
    and c: "consistent GetIndex hashsize t xs"
    and s: "entries s = map snd xs" "allocations s = alloc_script t"
    by (simp_all add: represents_def)
  show ?thesis
  proof (cases p)
    case None
    with at have "cursor s = None"
      by (simp add: cursor_at_def)
    with r p None show ?thesis
      by (auto simp: GotoNextElement_def read_cur_def)
  next
    case (Some a)
    with at obtain x where x: "x \<in> set xs" "fst x = a" "cursor s = Some (fst (snd x))"
      by (auto simp: cursor_at_def)
    from x(1) obtain ys zs where xs: "xs = ys @ x # zs"
      by (blast dest: split_list)
    from consistent_live [OF c x(1)] x(2) obtain n where n: "cells t a = Some n"
      by auto
    have "dlist listnext listprev (cells t) (firsthashelem t) (map fst ys @ a # map fst zs)
        (lasthashelem t)"
      using c xs x(2) by (simp add: consistent_def)
    from dlist_at(1) [OF this n] have nx: "listnext n = first_opt (map fst zs)" .
    have dk: "distinct (map (fst \<circ> snd) (ys @ x # zs))"
      using c xs unfolding consistent_def by blast
    have sk: "successor_key (fst (snd x)) (entries s) = first_opt (map (fst \<circ> snd) zs)"
      using ref_remove(2) [OF dk] s(1) xs by simp
    have "cursor_at xs (first_opt (map fst zs)) (first_opt (map (fst \<circ> snd) zs))"
      using xs by (intro cursor_at_first) auto
    with c s x(3) sk nx have "represents GetIndex hashsize (t\<lparr>curhashelem := Value (listnext n)\<rparr>) xs
        (ref_perform GetIndex hashsize GotoNext s)"
      by (simp add: represents_def)
    with p Some n show ?thesis
      by (auto simp: GotoNextElement_def read_cur_def)
  qed
qed

lemma perform_usable:
  assumes r: "represents GetIndex hashsize t xs s"
    and u: "usable GetIndex x (curhashelem t \<noteq> Indeterminate)"
  shows "\<exists>t' xs'. perform GetIndex hashsize x t = Some t' \<and>
           represents GetIndex hashsize t' xs' (ref_perform GetIndex hashsize x s) \<and>
           (curhashelem t \<noteq> Indeterminate \<or> positions GetIndex hashsize x
              \<longrightarrow> curhashelem t' \<noteq> Indeterminate)"
proof (cases x)
  case (Add k e)
  with u have i: "0 \<le> GetIndex k" by simp
  from Add_represents [OF r i, of e] obtain t' xs' where
    a: "perform GetIndex hashsize (Add k e) t = Some t'"
    "represents GetIndex hashsize t' xs' (ref_perform GetIndex hashsize (Add k e) s)"
    by blast
  have "curhashelem t' = curhashelem t"
    using a(1)
    by (auto simp: AddElement_def Let_def RTPNew_def modify_def
        split: if_splits option.splits Option.bind_splits prod.splits list.splits bool.splits)
  then have "curhashelem t \<noteq> Indeterminate \<or> positions GetIndex hashsize (Add k e)
      \<longrightarrow> curhashelem t' \<noteq> Indeterminate"
    by simp
  with a show ?thesis unfolding Add by blast
next
  case (Delete k)
  with u have i: "0 \<le> GetIndex k" by simp
  from Delete_represents [OF r i] show ?thesis unfolding Delete by simp
next
  case DeleteCurrent
  with u have d: "curhashelem t \<noteq> Indeterminate" by simp
  from DeleteCurrent_represents [OF r d] show ?thesis unfolding DeleteCurrent by blast
next
  case GotoFirst
  from GotoFirst_represents [OF r] have
    "perform GetIndex hashsize GotoFirst t = Some (GotoFirstElement t) \<and>
     represents GetIndex hashsize (GotoFirstElement t) xs (ref_perform GetIndex hashsize GotoFirst s) \<and>
     curhashelem (GotoFirstElement t) \<noteq> Indeterminate"
    by simp
  then show ?thesis unfolding GotoFirst by blast
next
  case GotoNext
  with u have d: "curhashelem t \<noteq> Indeterminate" by simp
  from GotoNext_represents [OF r d] show ?thesis unfolding GotoNext by blast
next
  case (Goto k)
  with u have i: "0 \<le> GetIndex k" by simp
  from Goto_represents [OF r i] obtain st t' where
    g: "GotoElement GetIndex hashsize k t = Some (st, t')"
    "represents GetIndex hashsize t' xs (ref_perform GetIndex hashsize (Goto k) s)"
    by blast
  have "curhashelem t \<noteq> Indeterminate \<or> positions GetIndex hashsize (Goto k)
      \<longrightarrow> curhashelem t' \<noteq> Indeterminate"
    using g(1)
    by (auto simp: GotoElement_def Let_def split: if_splits Option.bind_splits prod.splits)
  moreover have "perform GetIndex hashsize (Goto k) t = Some t'"
    using g(1) by simp
  ultimately show ?thesis unfolding Goto using g(2) by blast
qed

lemma perform_unusable:
  assumes "\<not> usable GetIndex x (curhashelem t \<noteq> Indeterminate)"
  shows "perform GetIndex hashsize x t = None \<or>
         perform GetIndex hashsize x t = Some t \<and> ref_perform GetIndex hashsize x s = s"
proof (cases x)
  case (Add k e)
  with assms show ?thesis
    by (cases "hashsize \<le> GetIndex k") (simp_all add: AddElement_def Let_def table_at_def)
next
  case (Delete k)
  with assms show ?thesis
    by (cases "hashsize \<le> GetIndex k")
      (simp_all add: DeleteElement_def GotoElement_def Let_def table_at_def)
next
  case (Goto k)
  with assms show ?thesis
    by (cases "hashsize \<le> GetIndex k") (simp_all add: GotoElement_def Let_def table_at_def)
next
  case DeleteCurrent
  with assms show ?thesis
    by (simp add: DeleteCurrentElement_def read_cur_def)
next
  case GotoNext
  with assms show ?thesis
    by (simp add: GotoNextElement_def read_cur_def)
next
  case GotoFirst
  with assms show ?thesis by simp
qed

subsection \<open>Runs from the empty table\<close>

lemma usable_mono: "usable GetIndex x a \<Longrightarrow> (a \<longrightarrow> b) \<Longrightarrow> usable GetIndex x b"
  by (cases x) auto

lemma cursor_known_mono:
  "cursor_known GetIndex hashsize ops a \<Longrightarrow> (a \<longrightarrow> b) \<Longrightarrow> cursor_known GetIndex hashsize ops b"
proof (induction ops arbitrary: a b)
  case Nil
  show ?case by simp
next
  case (Cons x ops)
  from Cons.prems have "usable GetIndex x b"
    using usable_mono [of GetIndex x a b] by simp
  moreover have "cursor_known GetIndex hashsize ops (b \<or> positions GetIndex hashsize x)"
  proof (rule Cons.IH [of "a \<or> positions GetIndex hashsize x"])
    show "cursor_known GetIndex hashsize ops (a \<or> positions GetIndex hashsize x)"
      using Cons.prems(1) by simp
    show "a \<or> positions GetIndex hashsize x \<longrightarrow> b \<or> positions GetIndex hashsize x"
      using Cons.prems(2) by simp
  qed
  ultimately show ?case by simp
qed

lemma represents_new:
  "represents GetIndex hashsize (RTPKeyHashTable_new script) [] (ref_new script)"
  by (simp add: represents_def consistent_def dlist_def bucket_def RTPKeyHashTable_new_def
      ref_new_def)

lemma run_represents:
  assumes "represents GetIndex hashsize t xs s"
  shows "case run GetIndex hashsize ops t of
           None \<Rightarrow> \<not> cursor_known GetIndex hashsize ops (curhashelem t \<noteq> Indeterminate)
         | Some t' \<Rightarrow> \<exists>xs'. represents GetIndex hashsize t' xs' (ref_run GetIndex hashsize ops s)"
  using assms
proof (induction ops arbitrary: t xs s)
  case Nil
  then show ?case
    by (auto simp: ref_run_def)
next
  case (Cons x ops)
  let ?d = "curhashelem t \<noteq> Indeterminate"
  show ?case
  proof (cases "usable GetIndex x ?d")
    case True
    from perform_usable [OF Cons.prems True] obtain t' xs' where
      p: "perform GetIndex hashsize x t = Some t'"
      and r: "represents GetIndex hashsize t' xs' (ref_perform GetIndex hashsize x s)"
      and d: "?d \<or> positions GetIndex hashsize x \<longrightarrow> curhashelem t' \<noteq> Indeterminate"
      by blast
    note ih = Cons.IH [OF r]
    show ?thesis
    proof (cases "run GetIndex hashsize ops t'")
      case None
      with ih have "\<not> cursor_known GetIndex hashsize ops (curhashelem t' \<noteq> Indeterminate)"
        by simp
      with d have "\<not> cursor_known GetIndex hashsize ops (?d \<or> positions GetIndex hashsize x)"
        using cursor_known_mono by blast
      with p None show ?thesis by simp
    next
      case (Some t'')
      with ih p show ?thesis
        by (simp add: ref_run_def)
    qed
  next
    case False
    from perform_unusable [OF False, of hashsize s]
    show ?thesis
    proof
      assume "perform GetIndex hashsize x t = None"
      with False show ?thesis by simp
    next
      assume same: "perform GetIndex hashsize x t = Some t \<and> ref_perform GetIndex hashsize x s = s"
      note ih = Cons.IH [OF Cons.prems]
      show ?thesis
      proof (cases "run GetIndex hashsize ops t")
        case None
        with same False show ?thesis by simp
      next
        case (Some t'')
        with ih same show ?thesis
          by (simp add: ref_run_def)
      qed
    qed
  qed
qed




text \<open>
  Claim C9.  In a table reached from the empty one, \<^verbatim>\<open>AddElement\<close> with a key that a
  traversal would visit returns \<^verbatim>\<open>ERR_RTP_KEYHASHTABLE_KEYALREADYEXISTS\<close> and the table
  is the one before the call, in every member: no object has been made and no pointer
  changed.
\<close>

theorem AddElement_duplicate_key:
  assumes "run GetIndex hashsize ops (RTPKeyHashTable_new script) = Some t"
    and "traverse t = Some kvs" and "k \<in> fst ` set kvs"
  shows "AddElement GetIndex hashsize k e t =
           Some (Failure ERR_RTP_KEYHASHTABLE_KEYALREADYEXISTS, t)"
proof -
  from run_represents [OF represents_new [of GetIndex hashsize script], of ops] assms(1)
  obtain xs where r: "represents GetIndex hashsize t xs
      (ref_run GetIndex hashsize ops (ref_new script))"
    by auto
  then have c: "consistent GetIndex hashsize t xs"
    by (simp add: represents_def)
  from traverse_consistent [OF c] assms(2) have "kvs = map snd xs"
    by simp
  with assms(3) obtain x where x: "entry_of xs k = Some x"
    using keys_entry_of [of k xs] by auto
  then have "x \<in> set xs" "fst (snd x) = k"
    by (auto dest: entry_of_Some)
  with consistent_entry(2) [OF c, of x] have "0 \<le> GetIndex k" "GetIndex k < hashsize"
    by (auto simp: entry_ok_def split: option.splits)
  then show ?thesis
    using x by (intro AddElement_present [OF c])
qed

theorem AddElement_duplicate_key_witness:
  "case run (\<lambda>k. int (k mod 4)) 4 [Add (5::nat) ''a'', Add 9 ''b''] (RTPKeyHashTable_new []) of
     None \<Rightarrow> False
   | Some t \<Rightarrow>
       traverse t = Some [(5, ''a''), (9, ''b'')] \<and>
       AddElement (\<lambda>k. int (k mod 4)) 4 9 ''z'' t =
         Some (Failure ERR_RTP_KEYHASHTABLE_KEYALREADYEXISTS, t)"
proof -
  let ?gi = "\<lambda>k::nat. int (k mod 4)"
  let ?ops = "[Add (5::nat) ''a'', Add 9 ''b'']"
  have known: "cursor_known ?gi 4 ?ops (curhashelem (RTPKeyHashTable_new []) \<noteq> Indeterminate)"
    by simp
  have ref: "entries (ref_run ?gi 4 ?ops (ref_new [])) = [(5, ''a''), (9, ''b'')]"
    by (simp add: ref_run_def ref_new_def)
  from run_represents [OF represents_new [of ?gi 4 "[]"], of ?ops] known
  obtain t xs where t: "run ?gi 4 ?ops (RTPKeyHashTable_new []) = Some t"
    and r: "represents ?gi 4 t xs (ref_run ?gi 4 ?ops (ref_new []))"
    by (auto split: option.splits)
  from r ref have trav: "traverse t = Some [(5, ''a''), (9, ''b'')]"
    using traverse_consistent [of ?gi 4 t xs] by (simp add: represents_def)
  have "(9::nat) \<in> fst ` set [(5, ''a''), (9, ''b'')]"
    by simp
  from AddElement_duplicate_key [OF t trav this, of "''z''"] t trav show ?thesis
    by simp
qed

section \<open>The socket reassembler (rtptcptransmitter.h, RTPTCPTransmitter::SocketData)\<close>

unbundle bit_operations_syntax

subsection \<open>The state and the socket\<close>

text \<open>
  The members of \<^verbatim>\<open>SocketData\<close> as the header declares them.  The offsets and the length
  are counts of bytes; \<^verbatim>\<open>m_pDataBuffer\<close> is the null pointer (\<open>None\<close>) or the buffer it
  points to.
\<close>

type_synonym byte = "8 word"

record SocketData =
  m_lengthBuffer :: "byte list"
  m_lengthBufferOffset :: nat
  m_dataLength :: nat
  m_dataBufferOffset :: nat
  m_pDataBuffer :: "byte list option"

datatype receive_error = ConnectionClosed | OversizedFrame

text \<open>
  \<^verbatim>\<open>ExtractDataBuffer\<close>, the one member function whose body is in the header: it hands
  the buffer over and forgets it.
\<close>

definition ExtractDataBuffer :: "SocketData \<Rightarrow> byte list option \<times> SocketData" where
  "ExtractDataBuffer d = (m_pDataBuffer d, d\<lparr>m_pDataBuffer := None\<rparr>)"

text \<open>
  Modelled from the spec: \<^verbatim>\<open>Reset\<close> and the constructor, whose bodies are in
  \<^verbatim>\<open>rtptcptransmitter.cpp\<close>, not among the sources.  ``Reset zeroes lenOff, dataLen,
  dataOff; dataBuf is either harvested or freed.''  A new object is in the reset state.
\<close>

definition Reset :: "SocketData \<Rightarrow> SocketData" where
  "Reset d =
     d\<lparr>m_lengthBufferOffset := 0, m_dataLength := 0, m_dataBufferOffset := 0,
       m_pDataBuffer := None\<rparr>"

definition SocketData_new :: SocketData where
  "SocketData_new =
     \<lparr>m_lengthBuffer = [0, 0], m_lengthBufferOffset = 0, m_dataLength = 0,
      m_dataBufferOffset = 0, m_pDataBuffer = None\<rparr>"

text \<open>
  A stream socket is the list of the bytes that have arrived and were not read yet.
  \<^verbatim>\<open>recv\<close> for \<open>n\<close> bytes takes the first \<open>n\<close> of them, or all when fewer are there; it
  returns no byte only when none is there.
\<close>

definition recv :: "nat \<Rightarrow> byte list \<Rightarrow> byte list \<times> byte list" where
  "recv n sock = (take n sock, drop n sock)"

text \<open>Storing the bytes \<open>bs\<close> into the array \<open>buf\<close> from index \<open>off\<close> on.\<close>

definition store :: "nat \<Rightarrow> byte list \<Rightarrow> byte list \<Rightarrow> byte list" where
  "store off bs buf = take off buf @ bs @ drop (off + length bs) buf"

text \<open>\<^verbatim>\<open>(lenBuf[0] << 8) | lenBuf[1]\<close>, computed in 32 bits.\<close>

definition decode_length :: "byte list \<Rightarrow> nat" where
  "decode_length lb = unat ((push_bit 8 (ucast (lb ! 0)) OR ucast (lb ! 1)) :: 32 word)"

subsection \<open>ProcessAvailableBytes\<close>

text \<open>
  Modelled from the spec: \<^verbatim>\<open>ProcessAvailableBytes\<close>, whose body is in
  \<^verbatim>\<open>rtptcptransmitter.cpp\<close>, not among the sources; the spec calls it ProcessReadable.
  \<open>avail\<close> is the readable budget of the call.

  Step 1: ``While bytes remain and the reassembler is in the length phase (lenOff < 2):
  attempt to read up to 2 - lenOff bytes into lenBuf.  A zero-byte read signals peer
  close.  On crossing into lenOff = 2, decode dataLen; if dataLen > maxPackSize, return
  OversizedFrame; allocate dataBuf of size dataLen.''
\<close>

function read_length ::
  "nat \<Rightarrow> SocketData \<Rightarrow> byte list \<Rightarrow> nat \<Rightarrow> receive_error + (SocketData \<times> byte list \<times> nat)" where
  "read_length maxPackSize d sock avail =
     (if 0 < avail \<and> m_lengthBufferOffset d < 2
      then
        (case recv (min (2 - m_lengthBufferOffset d) avail) sock of
           (bs, sock') \<Rightarrow>
             if bs = [] then Inl ConnectionClosed
             else
               (let d1 = d\<lparr>m_lengthBuffer := store (m_lengthBufferOffset d) bs (m_lengthBuffer d),
                            m_lengthBufferOffset := m_lengthBufferOffset d + length bs\<rparr>
                in if m_lengthBufferOffset d1 = 2
                   then
                     (let l = decode_length (m_lengthBuffer d1)
                      in if l > maxPackSize then Inl OversizedFrame
                         else read_length maxPackSize
                                (d1\<lparr>m_dataLength := l, m_dataBufferOffset := 0,
                                    m_pDataBuffer := Some (replicate l 0)\<rparr>)
                                sock' (avail - length bs))
                   else read_length maxPackSize d1 sock' (avail - length bs)))
      else Inr (d, sock, avail))"
  by pat_completeness auto
termination
  by (relation "measure (\<lambda>(m, d, sock, avail). avail)")
    (auto simp: recv_def min_def split: if_splits)

text \<open>
  Step 2: ``While bytes remain and in the payload phase: read up to dataLen - dataOff.
  A zero-byte read signals ConnectionClosed.''  The payload phase lasts while the frame is
  not complete: the length is there and \<open>dataOff < dataLen\<close>.
\<close>

function read_payload ::
  "SocketData \<Rightarrow> byte list \<Rightarrow> nat \<Rightarrow> receive_error + (SocketData \<times> byte list \<times> nat)" where
  "read_payload d sock avail =
     (if 0 < avail \<and> m_lengthBufferOffset d = 2 \<and> m_dataBufferOffset d < m_dataLength d
      then
        (case recv (min (m_dataLength d - m_dataBufferOffset d) avail) sock of
           (bs, sock') \<Rightarrow>
             if bs = [] then Inl ConnectionClosed
             else read_payload
                    (d\<lparr>m_pDataBuffer :=
                         map_option (store (m_dataBufferOffset d) bs) (m_pDataBuffer d),
                       m_dataBufferOffset := m_dataBufferOffset d + length bs\<rparr>)
                    sock' (avail - length bs))
      else Inr (d, sock, avail))"
  by pat_completeness auto
termination
  by (relation "measure (\<lambda>(d, sock, avail). avail)")
    (auto simp: recv_def min_def split: if_splits)

text \<open>
  Steps 3 and 4: the frame is complete iff \<open>lenOff = 2\<close> and \<open>dataOff = dataLen\<close>.  The
  result is the new state, the socket, and \<^verbatim>\<open>complete\<close>.
\<close>

definition ProcessAvailableBytes ::
  "nat \<Rightarrow> SocketData \<Rightarrow> byte list \<Rightarrow> nat \<Rightarrow> receive_error + (SocketData \<times> byte list \<times> bool)" where
  "ProcessAvailableBytes maxPackSize d sock avail =
     (case read_length maxPackSize d sock avail of
        Inl e \<Rightarrow> Inl e
      | Inr (d1, sock1, avail1) \<Rightarrow>
          (case read_payload d1 sock1 avail1 of
             Inl e \<Rightarrow> Inl e
           | Inr (d2, sock2, avail2) \<Rightarrow>
               Inr (d2, sock2,
                    m_lengthBufferOffset d2 = 2 \<and> m_dataBufferOffset d2 = m_dataLength d2)))"

subsection \<open>Feeding a stream\<close>

text \<open>
  Modelled from the spec: the receive path of the transmitter, as far as one socket is
  concerned.  On a wake the bytes of a chunk are readable; the reassembler is driven
  ``until it would block or reports an error'', each call with the number of readable
  bytes as its budget; after a complete frame ``the caller harvests dataBuf \<dots> and issues
  Reset()''.  \<open>out\<close> collects the payloads in the order of their completion.  The result
  \<open>None\<close> stands for a loop that does not end.
\<close>

partial_function (option) drain ::
  "nat \<Rightarrow> SocketData \<Rightarrow> byte list \<Rightarrow> byte list list
     \<Rightarrow> (byte list list \<times> (receive_error + SocketData)) option" where
  "drain maxPackSize d sock out =
     (if sock = [] then Some (out, Inr d)
      else case ProcessAvailableBytes maxPackSize d sock (length sock) of
             Inl e \<Rightarrow> Some (out, Inl e)
           | Inr (d1, sock1, is_complete) \<Rightarrow>
               if is_complete
               then (case ExtractDataBuffer d1 of
                       (buf, d2) \<Rightarrow>
                         drain maxPackSize (Reset d2) sock1
                           (out @ [case buf of None \<Rightarrow> [] | Some b \<Rightarrow> b]))
               else drain maxPackSize d1 sock1 out)"

declare drain.simps [code]

text \<open>
  The chunks of a stream, one wake each.  After an error the destination is removed, and
  the chunks that follow are not read.
\<close>

fun feed ::
  "nat \<Rightarrow> SocketData \<Rightarrow> byte list list \<Rightarrow> byte list list
     \<Rightarrow> (byte list list \<times> (receive_error + SocketData)) option" where
  "feed maxPackSize d [] out = Some (out, Inr d)"
| "feed maxPackSize d (chunk # chunks) out =
     (case drain maxPackSize d chunk out of
        None \<Rightarrow> None
      | Some (out1, Inl e) \<Rightarrow> Some (out1, Inl e)
      | Some (out1, Inr d1) \<Rightarrow> feed maxPackSize d1 chunks out1)"

text \<open>
  The frames of a stream, following the words of the specification: ``each packet on the
  wire is u16 length (big-endian) || length bytes''.  \<open>frames\<close> are the payloads of the
  whole frames at the front of the stream, \<open>lengths\<close> the lengths decoded on the way,
  that of a last, partial frame included.
\<close>

fun frames :: "byte list \<Rightarrow> byte list list" where
  "frames (b0 # b1 # rest) =
     (let n = 256 * unat b0 + unat b1
      in if n \<le> length rest then take n rest # frames (drop n rest) else [])"
| "frames _ = []"

fun lengths :: "byte list \<Rightarrow> nat list" where
  "lengths (b0 # b1 # rest) =
     (let n = 256 * unat b0 + unat b1
      in n # (if n \<le> length rest then lengths (drop n rest) else []))"
| "lengths _ = []"

subsection \<open>One call of ProcessAvailableBytes\<close>

declare read_length.simps [simp del]
declare read_payload.simps [simp del]

lemma unat_byte_less: "unat (b :: byte) < 256"
  using unsigned_less [of b] by simp

lemma decode_length_pair:
  "decode_length [b0, b1] = 256 * unat b0 + unat b1"
proof -
  let ?hi = "push_bit 8 (ucast b0) :: 32 word" and ?lo = "ucast b1 :: 32 word"
  have or: "?hi OR ?lo = ?hi + ?lo"
    by (rule disjunctive_add_eq_or [symmetric])
      (auto simp: bit_eq_iff bit_simps dest: bit_imp_le_length)
  have lo: "unat ?lo = unat b1"
    using unat_byte_less [of b1] by (simp add: unsigned_ucast_eq take_bit_nat_eq_self)
  have "unat (ucast b0 :: 32 word) = unat b0"
    using unat_byte_less [of b0] by (simp add: unsigned_ucast_eq take_bit_nat_eq_self)
  then have hi: "unat ?hi = 256 * unat b0"
    using unat_byte_less [of b0]
    by (subst unsigned_push_bit_eq) (simp add: push_bit_eq_mult take_bit_nat_eq_self)
  have "unat (?hi + ?lo) = 256 * unat b0 + unat b1"
    using unat_byte_less [of b0] unat_byte_less [of b1] lo hi
    by (simp add: unat_word_ariths)
  with or show ?thesis
    by (simp add: decode_length_def)
qed

text \<open>
  \<open>loaded d b0 b1 got\<close>: the length bytes \<open>b0\<close>, \<open>b1\<close> have been read and decoded, the
  buffer has been allocated, and \<open>got\<close> is the part of the payload read so far.
\<close>

definition loaded :: "SocketData \<Rightarrow> byte \<Rightarrow> byte \<Rightarrow> byte list \<Rightarrow> bool" where
  "loaded d b0 b1 got =
     (m_lengthBuffer d = [b0, b1] \<and> m_lengthBufferOffset d = 2 \<and>
      m_dataLength d = 256 * unat b0 + unat b1 \<and>
      m_dataBufferOffset d = length got \<and> length got \<le> m_dataLength d \<and>
      (case m_pDataBuffer d of
         None \<Rightarrow> False
       | Some buf \<Rightarrow> length buf = m_dataLength d \<and> take (length got) buf = got))"

text \<open>
  \<open>holds d p\<close>: the reassembler \<open>d\<close> is between two calls, and \<open>p\<close> is the part of the
  current frame that it has read: fewer than two bytes of length, or the length and less
  than the whole payload.
\<close>

fun holds :: "SocketData \<Rightarrow> byte list \<Rightarrow> bool" where
  "holds d [] =
     (length (m_lengthBuffer d) = 2 \<and> m_lengthBufferOffset d = 0 \<and> m_dataLength d = 0 \<and>
      m_dataBufferOffset d = 0 \<and> m_pDataBuffer d = None)"
| "holds d [b] =
     (length (m_lengthBuffer d) = 2 \<and> hd (m_lengthBuffer d) = b \<and>
      m_lengthBufferOffset d = 1 \<and> m_dataLength d = 0 \<and>
      m_dataBufferOffset d = 0 \<and> m_pDataBuffer d = None)"
| "holds d (b0 # b1 # got) = (loaded d b0 b1 got \<and> length got < 256 * unat b0 + unat b1)"

lemma holds_length: "holds d p \<Longrightarrow> length (m_lengthBuffer d) = 2"
  by (induction d p rule: holds.induct) (auto simp: loaded_def)

lemma length_two: "length xs = 2 \<Longrightarrow> \<exists>x y. xs = [x, y]"
  by (cases xs; cases "tl xs") auto

lemma read_length_stop:
  "avail = 0 \<or> m_lengthBufferOffset d = 2 \<Longrightarrow>
     read_length maxPackSize d sock avail = Inr (d, sock, avail)"
  by (subst read_length.simps) auto

lemma read_length_one:
  assumes "holds d []"
  shows "\<exists>d'. read_length maxPackSize d [b] 1 = Inr (d', [], 0) \<and> holds d' [b]"
proof -
  from assms obtain x y where "m_lengthBuffer d = [x, y]"
    by (auto dest: length_two)
  with assms show ?thesis
    by (subst read_length.simps)
      (simp add: recv_def store_def Let_def read_length_stop)
qed

lemma read_length_header:
  assumes "holds d p" and "p @ c = b0 # b1 # rest" and "length p < 2"
    and "256 * unat b0 + unat b1 \<le> maxPackSize"
  shows "\<exists>d'. read_length maxPackSize d c (length c) = Inr (d', rest, length rest) \<and>
           loaded d' b0 b1 []"
proof -
  from holds_length [OF assms(1)] obtain x y where xy: "m_lengthBuffer d = [x, y]"
    by (auto dest: length_two)
  let ?d' = "d\<lparr>m_lengthBuffer := [b0, b1], m_lengthBufferOffset := 2,
               m_dataLength := 256 * unat b0 + unat b1, m_dataBufferOffset := 0,
               m_pDataBuffer := Some (replicate (256 * unat b0 + unat b1) 0)\<rparr>"
  have ld: "loaded ?d' b0 b1 []"
    by (simp add: loaded_def)
  consider (none) "p = []" "c = b0 # b1 # rest" | (one) "p = [b0]" "c = b1 # rest"
    using assms(2,3) by (cases p; cases "tl p") auto
  then have "read_length maxPackSize d c (length c) = Inr (?d', rest, length rest)"
  proof cases
    case none
    with assms(1,4) xy show ?thesis
      by (subst read_length.simps)
        (simp add: recv_def store_def Let_def decode_length_pair read_length_stop)
  next
    case one
    with assms(1,4) xy show ?thesis
      by (subst read_length.simps)
        (simp add: recv_def store_def Let_def decode_length_pair read_length_stop)
  qed
  with ld show ?thesis by blast
qed

lemma read_length_loaded:
  assumes "loaded d b0 b1 got"
  shows "read_length maxPackSize d c avail = Inr (d, c, avail)"
  using assms by (subst read_length.simps) (simp add: loaded_def)

lemma read_payload_stop:
  "avail = 0 \<or> m_lengthBufferOffset d \<noteq> 2 \<or> m_dataLength d \<le> m_dataBufferOffset d \<Longrightarrow>
     read_payload d sock avail = Inr (d, sock, avail)"
  by (subst read_payload.simps) auto

lemma read_payload_step:
  assumes "0 < avail" "m_lengthBufferOffset d = 2" "m_dataBufferOffset d < m_dataLength d"
    and "take (min (m_dataLength d - m_dataBufferOffset d) avail) sock = bs" "bs \<noteq> []"
    and "drop (min (m_dataLength d - m_dataBufferOffset d) avail) sock = rest"
  shows "read_payload d sock avail =
    read_payload (d\<lparr>m_pDataBuffer := map_option (store (m_dataBufferOffset d) bs) (m_pDataBuffer d),
                    m_dataBufferOffset := m_dataBufferOffset d + length bs\<rparr>) rest (avail - length bs)"
  using assms by (subst read_payload.simps) (simp add: recv_def)

lemma store_length:
  "off + length bs \<le> length buf \<Longrightarrow> length (store off bs buf) = length buf"
  by (simp add: store_def)

lemma store_take:
  "off + length bs \<le> length buf \<Longrightarrow>
     take (off + length bs) (store off bs buf) = take off buf @ bs"
  by (simp add: store_def)

lemma read_payload_loaded:
  assumes "loaded d b0 b1 got"
  shows "\<exists>d'. read_payload d c (length c) =
           Inr (d', drop (256 * unat b0 + unat b1 - length got) c,
                length c - (256 * unat b0 + unat b1 - length got)) \<and>
         loaded d' b0 b1 (got @ take (256 * unat b0 + unat b1 - length got) c)"
proof -
  let ?n = "256 * unat b0 + unat b1"
  let ?k = "?n - length got"
  from assms obtain buf where d: "m_lengthBuffer d = [b0, b1]" "m_lengthBufferOffset d = 2"
    "m_dataLength d = ?n" "m_dataBufferOffset d = length got" "length got \<le> ?n"
    and buf: "m_pDataBuffer d = Some buf" "length buf = ?n" "take (length got) buf = got"
    by (auto simp: loaded_def split: option.splits)
  show ?thesis
  proof (cases "c = [] \<or> length got = ?n")
    case True
    then have "read_payload d c (length c) = Inr (d, c, length c)"
      using d by (intro read_payload_stop) auto
    moreover have "drop ?k c = c" "length c - ?k = length c" "got @ take ?k c = got"
      using True by auto
    ultimately show ?thesis
      using assms by auto
  next
    case False
    then have lt: "length got < ?n" and ne: "c \<noteq> []"
      using d(5) by auto
    let ?bs = "take ?k c"
    let ?d' = "d\<lparr>m_pDataBuffer := Some (store (length got) ?bs buf),
                 m_dataBufferOffset := length got + length ?bs\<rparr>"
    have fits: "length got + length ?bs \<le> length buf"
      using buf(2) lt by simp
    have ld: "loaded ?d' b0 b1 (got @ ?bs)"
      unfolding loaded_def using d buf fits store_length [OF fits] store_take [OF fits]
      by simp
    have stop: "read_payload ?d' (drop ?k c) (length c - length ?bs) =
        Inr (?d', drop ?k c, length c - length ?bs)"
    proof (rule read_payload_stop)
      show "length c - length ?bs = 0 \<or> m_lengthBufferOffset ?d' \<noteq> 2 \<or>
          m_dataLength ?d' \<le> m_dataBufferOffset ?d'"
        using d(3) lt by (cases "?k \<le> length c") simp_all
    qed
    have rq: "min (m_dataLength d - m_dataBufferOffset d) (length c) = min ?k (length c)"
      using d by simp
    have tk: "take (min ?k (length c)) c = ?bs" "drop (min ?k (length c)) c = drop ?k c"
      by (simp_all add: min_def)
    have nz: "?bs \<noteq> []"
      using lt ne by simp
    have cond: "0 < length c \<and> m_lengthBufferOffset d = 2 \<and> m_dataBufferOffset d < m_dataLength d"
      using d lt ne by simp
    have "read_payload d c (length c) = read_payload ?d' (drop ?k c) (length c - length ?bs)"
      using read_payload_step [of "length c" d c ?bs "drop ?k c"] cond nz rq tk buf(1) d(4)
      by simp
    then have "read_payload d c (length c) = Inr (?d', drop ?k c, length c - length ?bs)"
      using stop by simp
    moreover have "length c - length ?bs = length c - ?k"
      by simp
    ultimately show ?thesis
      using ld by auto
  qed
qed

subsection \<open>Parsing a stream in pieces\<close>

text \<open>
  \<open>remainder s\<close> is what follows the whole frames of \<open>s\<close>: the part of a frame that a
  reassembler holds when it has read \<open>s\<close>.
\<close>

fun remainder :: "byte list \<Rightarrow> byte list" where
  "remainder (b0 # b1 # rest) =
     (let n = 256 * unat b0 + unat b1
      in if n \<le> length rest then remainder (drop n rest) else b0 # b1 # rest)"
| "remainder s = s"

lemma frames_append:
  "frames (a @ b) = frames a @ frames (remainder a @ b)"
  by (induction a rule: frames.induct) (simp_all add: Let_def)

lemma remainder_append:
  "remainder (a @ b) = remainder (remainder a @ b)"
  by (induction a rule: frames.induct) (simp_all add: Let_def)

lemma lengths_remainder:
  "set (lengths (remainder a @ b)) \<subseteq> set (lengths (a @ b))"
  by (induction a rule: frames.induct) (auto simp: Let_def)

lemma lengths_prefix:
  "set (lengths a) \<subseteq> set (lengths (a @ b))"
  by (induction a rule: frames.induct) (auto simp: Let_def)

lemma holds_partial:
  assumes "holds d p"
  shows "frames p = [] \<and> remainder p = p"
  using assms by (induction d p rule: holds.induct) (simp_all add: Let_def)

subsection \<open>The reassembler follows the parser\<close>

lemma ProcessAvailableBytes_short:
  assumes "holds d p" and "c \<noteq> []" and "length (p @ c) < 2"
  shows "\<exists>d'. ProcessAvailableBytes maxPackSize d c (length c) = Inr (d', [], False) \<and>
           holds d' (p @ c)"
proof -
  from assms(2,3) obtain b where pc: "p = []" "c = [b]"
    by (cases p; cases c; cases "tl c") auto
  from read_length_one [where d = d and b = b and maxPackSize = maxPackSize] assms(1) pc
  obtain d' where rl: "read_length maxPackSize d [b] 1 = Inr (d', [], 0)" and h: "holds d' [b]"
    by auto
  have "read_payload d' [] 0 = Inr (d', [], 0)"
    by (rule read_payload_stop) simp
  with rl h pc show ?thesis
    by (auto simp: ProcessAvailableBytes_def)
qed

lemma loaded_complete:
  "loaded d b0 b1 got \<Longrightarrow>
     (m_lengthBufferOffset d = 2 \<and> m_dataBufferOffset d = m_dataLength d) =
     (length got = 256 * unat b0 + unat b1)"
  by (auto simp: loaded_def)

lemma ProcessAvailableBytes_frame:
  assumes "holds d p" and "c \<noteq> []" and "p @ c = b0 # b1 # body"
    and "256 * unat b0 + unat b1 \<le> maxPackSize"
  shows "\<exists>d'. ProcessAvailableBytes maxPackSize d c (length c) =
             Inr (d', drop (256 * unat b0 + unat b1) body, 256 * unat b0 + unat b1 \<le> length body) \<and>
           loaded d' b0 b1 (take (256 * unat b0 + unat b1) body) \<and>
           length (drop (256 * unat b0 + unat b1) body) < length c"
proof (cases "length p < 2")
  let ?n = "256 * unat b0 + unat b1"
  case True
  from read_length_header [OF assms(1,3) True assms(4)] obtain d1
    where rl: "read_length maxPackSize d c (length c) = Inr (d1, body, length body)"
      and ld1: "loaded d1 b0 b1 []"
    by blast
  from read_payload_loaded [OF ld1, of body] obtain d'
    where rp: "read_payload d1 body (length body) =
        Inr (d', drop ?n body, length body - ?n)"
      and ld: "loaded d' b0 b1 (take ?n body)"
    by auto
  have "length body < length c"
    using True assms(3) by (cases p; cases "tl p") auto
  then have "length (drop ?n body) < length c"
    by simp
  moreover have "(m_lengthBufferOffset d' = 2 \<and> m_dataBufferOffset d' = m_dataLength d') =
      (?n \<le> length body)"
    unfolding loaded_complete [OF ld] by auto
  ultimately show ?thesis
    using rl rp ld by (simp add: ProcessAvailableBytes_def)
next
  let ?n = "256 * unat b0 + unat b1"
  case False
  then obtain got where p: "p = b0 # b1 # got"
    using assms(3) by (cases p; cases "tl p") auto
  with assms(1) have ld0: "loaded d b0 b1 got" and lt: "length got < ?n"
    by simp_all
  from p assms(3) have body: "body = got @ c"
    by simp
  from read_payload_loaded [OF ld0, of c] obtain d'
    where rp: "read_payload d c (length c) =
        Inr (d', drop (?n - length got) c, length c - (?n - length got))"
      and ld: "loaded d' b0 b1 (got @ take (?n - length got) c)"
    by auto
  have tk: "take ?n body = got @ take (?n - length got) c"
    and dr: "drop ?n body = drop (?n - length got) c"
    using lt by (simp_all add: body)
  have "length (drop ?n body) < length c"
    unfolding dr using lt assms(2) by (cases c) auto
  moreover have "(m_lengthBufferOffset d' = 2 \<and> m_dataBufferOffset d' = m_dataLength d') =
      (?n \<le> length body)"
    unfolding loaded_complete [OF ld] using lt by (auto simp: body)
  ultimately show ?thesis
    using read_length_loaded [OF ld0, of maxPackSize c "length c"] rp ld tk dr
    by (simp add: ProcessAvailableBytes_def)
qed

lemma drain_empty: "drain maxPackSize d [] out = Some (out, Inr d)"
  by (subst drain.simps) simp

lemma drain_incomplete:
  assumes "c \<noteq> []" and "ProcessAvailableBytes maxPackSize d c (length c) = Inr (d1, c1, False)"
  shows "drain maxPackSize d c out = drain maxPackSize d1 c1 out"
  using assms by (subst drain.simps) simp

lemma drain_complete:
  assumes "c \<noteq> []" and "ProcessAvailableBytes maxPackSize d c (length c) = Inr (d1, c1, True)"
    and "ExtractDataBuffer d1 = (Some buf, d2)"
  shows "drain maxPackSize d c out = drain maxPackSize (Reset d2) c1 (out @ [buf])"
  using assms by (subst drain.simps) simp

lemma loaded_extract:
  assumes "loaded d b0 b1 got" and "length got = 256 * unat b0 + unat b1"
  shows "\<exists>d2. ExtractDataBuffer d = (Some got, d2) \<and> holds (Reset d2) []"
  using assms by (auto simp: loaded_def ExtractDataBuffer_def Reset_def split: option.splits)

lemma drain_follows:
  assumes "holds d p" and "\<forall>n \<in> set (lengths (p @ c)). n \<le> maxPackSize"
  shows "\<exists>d'. drain maxPackSize d c out = Some (out @ frames (p @ c), Inr d') \<and>
           holds d' (remainder (p @ c))"
  using assms
proof (induction c arbitrary: d p out rule: length_induct)
  case (1 c)
  note IH = "1.IH" and h = \<open>holds d p\<close> and bound = "1.prems"(2)
  show ?case
  proof (cases "c = []")
    case True
    with h holds_partial [OF h] show ?thesis
      by (simp add: drain_empty)
  next
    case ne: False
    show ?thesis
    proof (cases "length (p @ c) < 2")
      case True
      from ProcessAvailableBytes_short [OF h ne True, of maxPackSize] obtain d'
        where pab: "ProcessAvailableBytes maxPackSize d c (length c) = Inr (d', [], False)"
          and h': "holds d' (p @ c)"
        by blast
      have "drain maxPackSize d c out = Some (out, Inr d')"
        by (simp add: drain_incomplete [OF ne pab] drain_empty)
      with h' holds_partial [OF h'] show ?thesis
        by simp
    next
      case False
      then obtain b0 b1 body where pc: "p @ c = b0 # b1 # body"
        by (cases "p @ c"; cases "tl (p @ c)") auto
      let ?n = "256 * unat b0 + unat b1"
      have n: "?n \<le> maxPackSize"
        using bound by (simp add: pc Let_def)
      from ProcessAvailableBytes_frame [OF h ne pc n] obtain d'
        where pab: "ProcessAvailableBytes maxPackSize d c (length c) =
            Inr (d', drop ?n body, ?n \<le> length body)"
          and ld: "loaded d' b0 b1 (take ?n body)"
          and shorter: "length (drop ?n body) < length c"
        by blast
      show ?thesis
      proof (cases "?n \<le> length body")
        case whole: True
        then have "length (take ?n body) = ?n"
          by simp
        from loaded_extract [OF ld this] obtain d2
          where ex: "ExtractDataBuffer d' = (Some (take ?n body), d2)"
            and h2: "holds (Reset d2) []"
          by blast
        have step: "drain maxPackSize d c out =
            drain maxPackSize (Reset d2) (drop ?n body) (out @ [take ?n body])"
          using pab whole by (intro drain_complete [OF ne _ ex]) simp
        have "\<And>n. n \<in> set (lengths ([] @ drop ?n body)) \<Longrightarrow> n \<le> maxPackSize"
          using bound whole by (simp add: pc Let_def)
        from IH [rule_format, OF shorter h2 this, of "out @ [take ?n body]"] obtain d''
          where "drain maxPackSize (Reset d2) (drop ?n body) (out @ [take ?n body]) =
              Some ((out @ [take ?n body]) @ frames (drop ?n body), Inr d'')"
            and "holds d'' (remainder (drop ?n body))"
          by auto
        with step whole show ?thesis
          by (simp add: pc Let_def)
      next
        case part: False
        then have tk: "take ?n body = body" and dr: "drop ?n body = []"
          by simp_all
        have "drain maxPackSize d c out = Some (out, Inr d')"
          using pab part by (simp add: drain_incomplete [OF ne] dr drain_empty)
        moreover have "holds d' (b0 # b1 # body)"
          using ld part by (simp add: tk)
        ultimately show ?thesis
          using part by (simp add: pc Let_def)
      qed
    qed
  qed
qed

lemma feed_follows:
  assumes "holds d p" and "\<forall>n \<in> set (lengths (p @ concat chunks)). n \<le> maxPackSize"
  shows "\<exists>d'. feed maxPackSize d chunks out = Some (out @ frames (p @ concat chunks), Inr d') \<and>
           holds d' (remainder (p @ concat chunks))"
  using assms
proof (induction chunks arbitrary: d p out)
  case Nil
  then show ?case
    using holds_partial [of d p] by simp
next
  case (Cons chunk chunks)
  have "\<forall>n \<in> set (lengths (p @ chunk)). n \<le> maxPackSize"
    using Cons.prems(2) lengths_prefix [of "p @ chunk" "concat chunks"] by auto
  from drain_follows [OF Cons.prems(1) this, of out] obtain d1
    where dr: "drain maxPackSize d chunk out = Some (out @ frames (p @ chunk), Inr d1)"
      and h1: "holds d1 (remainder (p @ chunk))"
    by blast
  have "\<forall>n \<in> set (lengths (remainder (p @ chunk) @ concat chunks)). n \<le> maxPackSize"
    using Cons.prems(2) lengths_remainder [of "p @ chunk" "concat chunks"] by auto
  from Cons.IH [OF h1 this, of "out @ frames (p @ chunk)"] obtain d'
    where "feed maxPackSize d1 chunks (out @ frames (p @ chunk)) =
        Some ((out @ frames (p @ chunk)) @ frames (remainder (p @ chunk) @ concat chunks), Inr d')"
      and "holds d' (remainder (remainder (p @ chunk) @ concat chunks))"
    by blast
  with dr show ?case
    using frames_append [of "p @ chunk" "concat chunks"]
      remainder_append [of "p @ chunk" "concat chunks"]
    by simp
qed

lemma holds_new: "holds SocketData_new []"
  by (simp add: SocketData_new_def)

text \<open>
  \<open>admissible maxPackSize s\<close>: no length decoded from the stream \<open>s\<close> exceeds
  \<open>maxPackSize\<close>.
\<close>

definition admissible :: "nat \<Rightarrow> byte list \<Rightarrow> bool" where
  "admissible maxPackSize s = list_all (\<lambda>n. n \<le> maxPackSize) (lengths s)"

text \<open>
  Claim C1.  A stream is fed to a new reassembler in chunks of any sizes, empty ones
  included.  If no length decoded from the stream exceeds \<open>maxPackSize\<close>, the feeding
  ends with no error, and the payloads completed, in their order, are the frames of the
  stream parsed as a sequence of a two-byte big-endian length followed by that many
  bytes; a frame of length 0 gives an empty payload.
\<close>

theorem reassembler_emits_frames:
  assumes "admissible maxPackSize (concat chunks)"
  shows "\<exists>d. feed maxPackSize SocketData_new chunks [] = Some (frames (concat chunks), Inr d)"
proof -
  have "\<forall>n \<in> set (lengths ([] @ concat chunks)). n \<le> maxPackSize"
    using assms by (simp add: admissible_def list_all_iff)
  from feed_follows [OF holds_new this, of "[]"] show ?thesis
    by auto
qed

theorem reassembler_emits_frames_witness:
  "admissible 100
     (concat [[0, 5, 104, 101], [108], [], [108, 111, 0, 0, 0], [1, 65, 0, 2, 66, 67, 0]]) \<and>
   (\<exists>d. feed 100 SocketData_new
           [[0, 5, 104, 101], [108], [], [108, 111, 0, 0, 0], [1, 65, 0, 2, 66, 67, 0]] [] =
         Some ([[104, 101, 108, 108, 111], [], [65], [66, 67]], Inr d))"
proof -
  let ?chunks = "[[0, 5, 104, 101], [108], [], [108, 111, 0, 0, 0], [1, 65, 0, 2, 66, 67, 0]]
    :: byte list list"
  have ok: "admissible 100 (concat ?chunks)"
    by (simp add: admissible_def Let_def)
  have "frames (concat ?chunks) = [[104, 101, 108, 108, 111], [], [65], [66, 67]]"
    by (simp add: Let_def)
  with reassembler_emits_frames [OF ok] ok show ?thesis
    by simp
qed

section \<open>Time values (rtptimeutilities.h)\<close>

subsection \<open>The type double\<close>

text \<open>
  \<^verbatim>\<open>RTPTime\<close> stores a \<^verbatim>\<open>double\<close>, \<^verbatim>\<open>m_t\<close>.  A finite \<^verbatim>\<open>double\<close> is the real number it
  stands for; the doubles are the reals \<open>m * 2 ^ e\<close> with \<open>\<bar>m\<bar> < 2 ^ 53\<close> and
  \<open>- 1074 \<le> e \<le> 971\<close> (IEEE 754 binary64).  An arithmetic operation gives the double
  nearest to the exact result, a tie going to the even mantissa: \<open>fl\<close> of the exact
  result.  \<open>pow2 e\<close> is \<open>2 ^ e\<close> for an integer \<open>e\<close>, \<open>expo x\<close> the exponent of the
  binade of \<open>x\<close>, \<open>ulp x\<close> the spacing of the doubles there (that of the subnormal
  doubles below \<open>2 ^ - 1022\<close>).  Infinities and NaN are not modelled: no operation of
  the functions below can overflow (their operands stay below \<open>2 ^ 65\<close>), and a stored
  \<^verbatim>\<open>m_t\<close> is taken to be finite.
\<close>

definition pow2 :: "int \<Rightarrow> real" where
  "pow2 e = (if 0 \<le> e then 2 ^ nat e else 1 / 2 ^ nat (- e))"

definition expo :: "real \<Rightarrow> int" where
  "expo x = (if 1 \<le> \<bar>x\<bar> then bitlen \<lfloor>\<bar>x\<bar>\<rfloor> - 1 else - bitlen (\<lceil>1 / \<bar>x\<bar>\<rceil> - 1))"

definition ulp :: "real \<Rightarrow> real" where
  "ulp x = pow2 (max (expo x) (- 1022) - 52)"

text \<open>Rounding to the nearest integer, a tie to the even one.\<close>

definition round_even :: "real \<Rightarrow> int" where
  "round_even x =
     (let n = \<lfloor>x\<rfloor>; r = x - of_int n
      in if r < 1 / 2 then n else if 1 / 2 < r then n + 1 else if even n then n else n + 1)"

definition fl :: "real \<Rightarrow> real" where
  "fl x = (if x = 0 then 0 else of_int (round_even (x / ulp x)) * ulp x)"

definition is_double :: "real \<Rightarrow> bool" where
  "is_double x = (fl x = x \<and> \<bar>x\<bar> < pow2 1024)"

subsection \<open>Facts about rounding\<close>

lemma pow2_powr: "pow2 e = 2 powr (of_int e)"
proof (cases "0 \<le> e")
  case True
  then show ?thesis
    by (simp add: pow2_def powr_realpow [symmetric])
next
  case False
  then have r: "real_of_int e = - real (nat (- e))"
    by simp
  have "2 powr (of_int e) = 2 powr (- real (nat (- e)))"
    by (subst r) (rule refl)
  also have "\<dots> = 1 / 2 powr real (nat (- e))"
    by (rule powr_minus_divide)
  also have "\<dots> = 1 / 2 ^ nat (- e)"
    by (subst powr_realpow) simp_all
  finally show ?thesis
    using False by (simp add: pow2_def)
qed

lemma pow2_pos [simp]: "0 < pow2 e"
  by (simp add: pow2_powr)

lemma pow2_add: "pow2 (a + b) = pow2 a * pow2 b"
  by (simp add: pow2_powr powr_add)

lemma pow2_diff: "pow2 (a - b) = pow2 a / pow2 b"
  by (simp add: pow2_powr powr_diff)

lemma pow2_le [simp]: "pow2 a \<le> pow2 b \<longleftrightarrow> a \<le> b"
  by (simp add: pow2_powr)

lemma pow2_less [simp]: "pow2 a < pow2 b \<longleftrightarrow> a < b"
  by (simp add: pow2_powr)

lemma pow2_nat: "pow2 (int n) = 2 ^ n"
  by (simp add: pow2_def)

lemma pow2_0 [simp]: "pow2 0 = 1"
  by (simp add: pow2_def)

lemma expo_bounds:
  assumes "x \<noteq> 0"
  shows "pow2 (expo x) \<le> \<bar>x\<bar>" and "\<bar>x\<bar> < pow2 (expo x + 1)"
proof -
  have "pow2 (expo x) \<le> \<bar>x\<bar> \<and> \<bar>x\<bar> < pow2 (expo x + 1)"
  proof (cases "1 \<le> \<bar>x\<bar>")
    case True
    let ?n = "\<lfloor>\<bar>x\<bar>\<rfloor>"
    from True have n: "0 < ?n"
      by simp
    have e: "expo x = bitlen ?n - 1"
      using True by (simp add: expo_def)
    from n have b1: "1 \<le> bitlen ?n"
      by (auto simp: bitlen_alt_def)
    from bitlen_bounds [OF n] have lo: "2 ^ nat (bitlen ?n - 1) \<le> ?n" and hi: "?n < 2 ^ nat (bitlen ?n)"
      by simp_all
    have "pow2 (bitlen ?n - 1) = of_int (2 ^ nat (bitlen ?n - 1))"
      using b1 by (simp add: pow2_def)
    also have "\<dots> \<le> of_int ?n"
      using lo by (simp only: of_int_le_iff)
    also have "\<dots> \<le> \<bar>x\<bar>"
      by simp
    finally have 1: "pow2 (expo x) \<le> \<bar>x\<bar>"
      by (simp add: e)
    from hi have "?n + 1 \<le> 2 ^ nat (bitlen ?n)"
      by simp
    then have "of_int (?n + 1) \<le> (of_int (2 ^ nat (bitlen ?n)) :: real)"
      by (simp only: of_int_le_iff)
    moreover have "\<bar>x\<bar> < of_int (?n + 1)"
      by linarith
    ultimately have "\<bar>x\<bar> < of_int (2 ^ nat (bitlen ?n))"
      by linarith
    then have "\<bar>x\<bar> < pow2 (bitlen ?n)"
      using b1 by (simp add: pow2_def)
    with 1 show ?thesis
      by (simp add: e)
  next
    case False
    let ?y = "1 / \<bar>x\<bar>"
    let ?c = "\<lceil>?y\<rceil>"
    let ?k = "bitlen (?c - 1)"
    from False assms have x: "0 < \<bar>x\<bar>" "\<bar>x\<bar> < 1"
      by simp_all
    then have y: "1 < ?y"
      by simp
    then have c: "0 < ?c - 1"
      by linarith
    have e: "expo x = - ?k"
      using False by (simp add: expo_def)
    from c have k1: "1 \<le> ?k"
      by (auto simp: bitlen_alt_def)
    from bitlen_bounds [OF c] have lo: "2 ^ nat (?k - 1) \<le> ?c - 1" and hi: "?c - 1 < 2 ^ nat ?k"
      by simp_all
    from hi have "?c \<le> 2 ^ nat ?k"
      by simp
    then have "of_int ?c \<le> (of_int (2 ^ nat ?k) :: real)"
      by (simp only: of_int_le_iff)
    with le_of_int_ceiling [of ?y] have "?y \<le> of_int (2 ^ nat ?k)"
      by (rule order_trans)
    then have "?y \<le> 2 ^ nat ?k"
      by simp
    then have "1 \<le> \<bar>x\<bar> * 2 ^ nat ?k"
      using x by (simp add: field_simps)
    then have 1: "pow2 (- ?k) \<le> \<bar>x\<bar>"
      using k1 by (simp add: pow2_def field_simps)
    have "(of_int (2 ^ nat (?k - 1)) :: real) \<le> of_int (?c - 1)"
      using lo by (simp only: of_int_le_iff)
    moreover have "of_int (?c - 1) < ?y"
      by linarith
    ultimately have "2 ^ nat (?k - 1) < ?y"
      by simp
    then have "\<bar>x\<bar> * 2 ^ nat (?k - 1) < 1"
      using x by (simp add: field_simps)
    then have "\<bar>x\<bar> < 1 / 2 ^ nat (?k - 1)"
      by (simp add: pos_less_divide_eq)
    moreover have "pow2 (- ?k + 1) = 1 / 2 ^ nat (?k - 1)"
      using k1 by (cases "?k = 1") (simp_all add: pow2_def)
    ultimately have "\<bar>x\<bar> < pow2 (- ?k + 1)"
      by (simp only:)
    with 1 show ?thesis
      by (simp add: e)
  qed
  then show "pow2 (expo x) \<le> \<bar>x\<bar>" and "\<bar>x\<bar> < pow2 (expo x + 1)"
    by simp_all
qed

lemma expo_le:
  assumes "x \<noteq> 0" and "\<bar>x\<bar> < pow2 (k + 1)"
  shows "expo x \<le> k"
proof -
  from expo_bounds(1) [OF assms(1)] assms(2) have "pow2 (expo x) < pow2 (k + 1)"
    by (rule le_less_trans)
  then show ?thesis
    by simp
qed

lemma expo_ge:
  assumes "pow2 k \<le> \<bar>x\<bar>"
  shows "k \<le> expo x"
proof -
  have "0 < \<bar>x\<bar>"
    using assms pow2_pos [of k] by linarith
  then have "x \<noteq> 0"
    by simp
  from assms expo_bounds(2) [OF this] have "pow2 k < pow2 (expo x + 1)"
    by (rule le_less_trans)
  then show ?thesis
    by simp
qed

lemma expo_eqI:
  assumes "pow2 k \<le> \<bar>x\<bar>" and "\<bar>x\<bar> < pow2 (k + 1)"
  shows "expo x = k"
proof -
  have "0 < \<bar>x\<bar>"
    using assms(1) pow2_pos [of k] by linarith
  then have "x \<noteq> 0"
    by simp
  with assms show ?thesis
    using expo_le [of x k] expo_ge [of k x] by simp
qed

lemma pow2_nonneg [simp]: "0 \<le> pow2 e"
  using pow2_pos [of e] by (rule less_imp_le)

lemma pow2_neq_0 [simp]: "pow2 e \<noteq> 0"
  using pow2_pos [of e] by linarith

lemma abs_pow2 [simp]: "\<bar>pow2 e\<bar> = pow2 e"
  by simp

lemma pow2_plus_nat: "pow2 (e + int n) = pow2 e * 2 ^ n"
  by (simp add: pow2_add pow2_nat)

lemma pow2_plus_53: "pow2 (e + 53) = 2 ^ 53 * pow2 e"
  using pow2_plus_nat [of e 53] by simp

lemma pow2_plus_1: "pow2 (e + 1) = 2 * pow2 e"
  using pow2_plus_nat [of e 1] by simp

lemma round_even_error: "\<bar>of_int (round_even x) - x\<bar> \<le> 1 / 2"
proof -
  have "of_int \<lfloor>x\<rfloor> \<le> x" "x < of_int \<lfloor>x\<rfloor> + 1"
    by linarith+
  then show ?thesis
    by (auto simp: round_even_def Let_def)
qed

lemma round_even_int [simp]: "round_even (of_int n) = n"
  by (simp add: round_even_def)

lemma round_even_le:
  assumes "x \<le> of_int n"
  shows "round_even x \<le> n"
proof (cases "x = of_int n")
  case True
  then show ?thesis by simp
next
  case False
  with assms have "x < of_int n"
    by simp
  then have "\<lfloor>x\<rfloor> < n"
    by (simp add: floor_less_iff)
  then show ?thesis
    by (auto simp: round_even_def Let_def)
qed

lemma round_even_ge:
  assumes "of_int n \<le> x"
  shows "n \<le> round_even x"
proof -
  from assms have "n \<le> \<lfloor>x\<rfloor>"
    by (simp add: le_floor_iff)
  then show ?thesis
    by (auto simp: round_even_def Let_def)
qed

lemma round_even_below:
  assumes "x < of_int n - 1 / 2"
  shows "round_even x \<le> n - 1"
proof -
  have "of_int (round_even x) \<le> x + 1 / 2"
    using round_even_error [of x] by linarith
  with assms have "of_int (round_even x) < (of_int n :: real)"
    by linarith
  then show ?thesis
    by simp
qed

lemma ulp_pos [simp]: "0 < ulp x"
  by (simp add: ulp_def)

lemma ulp_neq_0 [simp]: "ulp x \<noteq> 0"
  by (simp add: ulp_def)

lemma ulp_nonneg [simp]: "0 \<le> ulp x"
  using ulp_pos [of x] by (rule less_imp_le)

lemma fl_0 [simp]: "fl 0 = 0"
  by (simp add: fl_def)

lemma fl_error: "\<bar>fl x - x\<bar> \<le> ulp x / 2"
proof (cases "x = 0")
  case True
  then show ?thesis
    by simp
next
  case False
  have "fl x - x = (of_int (round_even (x / ulp x)) - x / ulp x) * ulp x"
    using False by (simp add: fl_def field_simps)
  then have "\<bar>fl x - x\<bar> = \<bar>of_int (round_even (x / ulp x)) - x / ulp x\<bar> * ulp x"
    by (simp add: abs_mult)
  also have "\<dots> \<le> 1 / 2 * ulp x"
    using round_even_error [of "x / ulp x"] by (intro mult_right_mono) simp_all
  finally show ?thesis
    by simp
qed

lemma ulp_le:
  assumes "x \<noteq> 0" and "\<bar>x\<bar> < pow2 (k + 1)" and "- 1022 \<le> k"
  shows "ulp x \<le> pow2 (k - 52)"
  using expo_le [OF assms(1,2)] assms(3) by (simp add: ulp_def)

lemma fl_error_bound:
  assumes "\<bar>x\<bar> < pow2 (k + 1)" and "- 1022 \<le> k"
  shows "\<bar>fl x - x\<bar> \<le> pow2 (k - 53)"
proof (cases "x = 0")
  case True
  then show ?thesis
    by simp
next
  case False
  have "pow2 (k - 52) = 2 * pow2 (k - 53)"
    using pow2_plus_1 [of "k - 53"] by simp
  with ulp_le [OF False assms] fl_error [of x] show ?thesis
    by linarith
qed

lemma fl_nonneg:
  assumes "0 \<le> x"
  shows "0 \<le> fl x"
proof (cases "x = 0")
  case True
  then show ?thesis by simp
next
  case False
  have "of_int 0 \<le> x / ulp x"
    using assms by simp
  then have "0 \<le> round_even (x / ulp x)"
    by (rule round_even_ge)
  with False show ?thesis
    by (simp add: fl_def)
qed

text \<open>A real of the form \<open>m * 2 ^ e\<close> with at most 53 bits of mantissa is a double.\<close>

lemma fl_exact:
  assumes x: "x = of_int m * pow2 e" and m: "\<bar>m\<bar> \<le> 2 ^ 53" and e: "- 1074 \<le> e"
  shows "fl x = x"
proof (cases "x = 0")
  case True
  then show ?thesis by simp
next
  case False
  have ax: "\<bar>x\<bar> = of_int \<bar>m\<bar> * pow2 e"
    by (simp add: x abs_mult)
  have "of_int \<bar>m\<bar> \<le> (of_int (2 ^ 53) :: real)"
    using m by (simp only: of_int_le_iff)
  then have "\<bar>x\<bar> \<le> 2 ^ 53 * pow2 e"
    unfolding ax by (intro mult_right_mono) simp_all
  also have "\<dots> = pow2 (e + 53)"
    by (simp add: pow2_plus_53)
  finally have le: "\<bar>x\<bar> \<le> pow2 (e + 53)" .
  define E where "E = max (expo x) (- 1022) - 52"
  have u: "ulp x = pow2 E"
    by (simp add: ulp_def E_def)
  have "\<exists>n. x / pow2 E = of_int n"
  proof (cases "\<bar>x\<bar> = pow2 (e + 53)")
    case True
    then have "expo x = e + 53"
      by (intro expo_eqI) (simp_all add: pow2_plus_1)
    with e have E: "E = e + 1"
      by (simp add: E_def)
    from True have "\<bar>x\<bar> = 2 ^ 53 * pow2 e"
      by (simp add: pow2_plus_53)
    then have "\<bar>x\<bar> / pow2 E = 2 ^ 52"
      by (simp add: E pow2_plus_1)
    then have "x / pow2 E = of_int (2 ^ 52) \<or> x / pow2 E = of_int (- (2 ^ 52))"
      by (cases "0 \<le> x") (simp_all add: abs_if)
    then show ?thesis
      by blast
  next
    case neq: False
    with le have "\<bar>x\<bar> < pow2 (e + 52 + 1)"
      by (simp add: add.commute add.left_commute)
    from expo_le [OF False this] e have "E \<le> e"
      by (simp add: E_def)
    then obtain k where k: "e = E + int k"
      by (metis zle_iff_zadd)
    have "x / pow2 E = of_int (m * 2 ^ k)"
      by (simp add: x k pow2_add pow2_nat)
    then show ?thesis
      by blast
  qed
  then obtain n where n: "x / pow2 E = of_int n"
    by blast
  have "fl x = of_int (round_even (x / pow2 E)) * pow2 E"
    using False by (simp add: fl_def u)
  also have "\<dots> = of_int n * pow2 E"
    by (simp only: n round_even_int)
  also have "\<dots> = x / pow2 E * pow2 E"
    by (simp only: n)
  also have "\<dots> = x"
    by simp
  finally show ?thesis .
qed

text \<open>Conversely, a double has this form.\<close>

lemma double_form:
  assumes "fl x = x"
  shows "\<exists>m e. x = of_int m * pow2 e \<and> \<bar>m\<bar> \<le> 2 ^ 53 \<and> - 1074 \<le> e"
proof (cases "x = 0")
  case True
  then have "x = of_int 0 * pow2 0"
    by simp
  then show ?thesis
    by (intro exI [of _ 0] conjI) simp_all
next
  case False
  define E where "E = max (expo x) (- 1022) - 52"
  define m where "m = round_even (x / pow2 E)"
  have u: "ulp x = pow2 E"
    by (simp add: ulp_def E_def)
  from assms False have x: "x = of_int m * pow2 E"
    by (simp add: fl_def u m_def)
  have "\<bar>x\<bar> < pow2 (expo x + 1)"
    by (rule expo_bounds(2) [OF False])
  also have "\<dots> \<le> pow2 (E + 53)"
    by (simp add: E_def)
  also have "\<dots> = 2 ^ 53 * pow2 E"
    by (simp add: pow2_plus_53)
  finally have "\<bar>x\<bar> / pow2 E < 2 ^ 53"
    by (simp add: pos_divide_less_eq)
  then have "\<bar>real_of_int m\<bar> < 2 ^ 53"
    by (simp add: x abs_mult)
  then have "\<bar>m\<bar> < 2 ^ 53"
    by (metis of_int_abs of_int_less_iff of_int_numeral of_int_power)
  moreover have "- 1074 \<le> E"
    by (simp add: E_def)
  ultimately show ?thesis
    using x by (intro exI [of _ m] exI [of _ E]) simp
qed

lemma fl_idem [simp]: "fl (fl x) = fl x"
proof (cases "x = 0")
  case True
  then show ?thesis by simp
next
  case False
  define E where "E = max (expo x) (- 1022) - 52"
  define m where "m = round_even (x / pow2 E)"
  have u: "ulp x = pow2 E"
    by (simp add: ulp_def E_def)
  have fx: "fl x = of_int m * pow2 E"
    using False by (simp add: fl_def u m_def)
  have "\<bar>x\<bar> < pow2 (expo x + 1)"
    by (rule expo_bounds(2) [OF False])
  also have "\<dots> \<le> pow2 (E + 53)"
    by (simp add: E_def)
  also have "\<dots> = 2 ^ 53 * pow2 E"
    by (simp add: pow2_plus_53)
  finally have "\<bar>x\<bar> / pow2 E < 2 ^ 53"
    by (simp add: pos_divide_less_eq)
  then have "\<bar>x / pow2 E\<bar> < 2 ^ 53"
    by simp
  then have "x / pow2 E \<le> 2 ^ 53 \<and> - (2 ^ 53) \<le> x / pow2 E"
    by linarith
  then have up: "x / pow2 E \<le> of_int (2 ^ 53)" and low: "of_int (- (2 ^ 53)) \<le> x / pow2 E"
    by simp_all
  have "m \<le> 2 ^ 53" "- (2 ^ 53) \<le> m"
    unfolding m_def using round_even_le [OF up] round_even_ge [OF low] by simp_all
  then have "\<bar>m\<bar> \<le> 2 ^ 53"
    by simp
  moreover have "- 1074 \<le> E"
    by (simp add: E_def)
  ultimately show ?thesis
    using fl_exact [OF fx] by simp
qed

lemma fl_of_int:
  assumes "\<bar>n\<bar> \<le> 2 ^ 53"
  shows "fl (of_int n) = of_int n"
  using fl_exact [of "of_int n" n 0] assms by simp

lemma fl_of_nat:
  assumes "n \<le> 2 ^ 53"
  shows "fl (of_nat n) = of_nat n"
  using fl_of_int [of "int n"] assms by simp

subsection \<open>Integers and doubles\<close>

text \<open>
  The conversion of a double to an integer type discards the fraction; when the value so
  truncated is not one of the type the behaviour is undefined (\<open>None\<close>).  A 32-bit
  unsigned is a word, so that its sum wraps; a 64-bit integer is an \<open>int\<close> within its
  bounds.  The conversion of an integer to \<^verbatim>\<open>double\<close> rounds.
\<close>

definition trunc :: "real \<Rightarrow> int" where
  "trunc x = (if 0 \<le> x then \<lfloor>x\<rfloor> else \<lceil>x\<rceil>)"

definition to_uint32 :: "real \<Rightarrow> 32 word option" where
  "to_uint32 x =
     (if 0 \<le> trunc x \<and> trunc x < 2 ^ 32 then Some (word_of_int (trunc x)) else None)"

definition to_int64 :: "real \<Rightarrow> int option" where
  "to_int64 x =
     (if - (2 ^ 63) \<le> trunc x \<and> trunc x < 2 ^ 63 then Some (trunc x) else None)"

definition to_uint64 :: "real \<Rightarrow> int option" where
  "to_uint64 x =
     (if 0 \<le> trunc x \<and> trunc x < 2 ^ 64 then Some (trunc x) else None)"

definition of_uint32 :: "32 word \<Rightarrow> real" where
  "of_uint32 w = fl (of_nat (unat w))"

subsection \<open>RTPNTPTime and RTPTime\<close>

record RTPNTPTime =
  msw :: "32 word"
  lsw :: "32 word"

record RTPTime =
  m_t :: real

definition RTP_NTPTIMEOFFSET :: nat where
  "RTP_NTPTIMEOFFSET = 2208988800"

text \<open>
  \<^verbatim>\<open>RTPTime::RTPTime(RTPNTPTime ntptime)\<close>.  The literal \<^verbatim>\<open>1e-6\<close> is the double nearest
  to \<open>1 / 10 ^ 6\<close>.
\<close>

definition RTPTime_of_NTP :: "RTPNTPTime \<Rightarrow> RTPTime option" where
  "RTPTime_of_NTP ntptime =
     (if unat (msw ntptime) < RTP_NTPTIMEOFFSET then Some \<lparr>m_t = 0\<rparr>
      else do {
        let sec = msw ntptime - word_of_nat RTP_NTPTIMEOFFSET;
        let x = of_uint32 (lsw ntptime);
        let x = fl (x / fl (65536 * 65536));
        let x = fl (x * 1000000);
        microsec \<leftarrow> to_uint32 x;
        Some \<lparr>m_t = fl (of_uint32 sec + fl (fl (1 / 1000000) * of_uint32 microsec))\<rparr>
      })"

subsection \<open>From an NTP timestamp\<close>

lemma of_uint32_exact [simp]: "of_uint32 w = of_nat (unat w)"
proof -
  have "unat w < 2 ^ 32"
    using unsigned_less [of w] by simp
  then have "unat w \<le> 2 ^ 53"
    by simp
  then show ?thesis
    unfolding of_uint32_def by (rule fl_of_nat)
qed

lemma to_uint32_floor:
  assumes "0 \<le> x" and "x < 2 ^ 32"
  shows "\<exists>w. to_uint32 x = Some w \<and> unat w = nat \<lfloor>x\<rfloor>"
proof -
  from assms have f: "0 \<le> \<lfloor>x\<rfloor>" "\<lfloor>x\<rfloor> < 2 ^ 32"
    by (simp_all add: floor_less_iff)
  then have "unat (word_of_int \<lfloor>x\<rfloor> :: 32 word) = nat \<lfloor>x\<rfloor>"
    by (simp add: unsigned_of_int take_bit_int_eq_self)
  with assms f show ?thesis
    by (simp add: to_uint32_def trunc_def)
qed

lemma error_chain:
  fixes a b c :: real
  assumes "\<bar>a - b\<bar> \<le> d" and "\<bar>b - c\<bar> \<le> e" and "d + e \<le> r"
  shows "\<bar>a - c\<bar> \<le> r"
  using assms by linarith

text \<open>The double \<^verbatim>\<open>1e-6\<close>.\<close>

lemma micro_error: "\<bar>fl (1 / 1000000) - 1 / 1000000\<bar> \<le> 1 / 2 ^ 73"
  using fl_error_bound [of "1 / 1000000" "- 20"] by (simp add: pow2_def)

lemma RTPTime_of_NTP_value:
  assumes "RTP_NTPTIMEOFFSET \<le> unat m"
  shows "RTPTime_of_NTP \<lparr>msw = m, lsw = l\<rparr> =
    Some \<lparr>m_t = fl (real (unat m - RTP_NTPTIMEOFFSET) +
                fl (fl (1 / 1000000) * real (nat \<lfloor>real (unat l) * 1000000 / 2 ^ 32\<rfloor>)))\<rparr>"
proof -
  define n where "n = unat l"
  let ?x = "real n * 1000000 / 2 ^ 32"
  have l: "n < 2 ^ 32"
    unfolding n_def using unsigned_less [of l] by simp
  then have l': "\<bar>int n\<bar> \<le> 2 ^ 53" "\<bar>int n * 1000000\<bar> \<le> 2 ^ 53"
    by simp_all
  have a: "fl (65536 * 65536) = 2 ^ 32"
    using fl_of_int [of "2 ^ 32"] by simp
  have b: "fl (real n / 2 ^ 32) = real n / 2 ^ 32"
    by (rule fl_exact [of _ "int n" "- 32", OF _ l'(1)]) (simp_all add: pow2_def)
  have c: "fl (real n / 2 ^ 32 * 1000000) = ?x"
    by (rule fl_exact [of _ "int n * 1000000" "- 32", OF _ l'(2), THEN trans])
      (simp_all add: pow2_def)
  have "0 \<le> ?x"
    by simp
  moreover have "?x < 2 ^ 32"
    using l by simp
  ultimately obtain w where w: "to_uint32 ?x = Some w" "unat w = nat \<lfloor>?x\<rfloor>"
    using to_uint32_floor by blast
  have "(word_of_nat RTP_NTPTIMEOFFSET :: 32 word) \<le> m"
    using assms by (simp add: word_le_nat_alt RTP_NTPTIMEOFFSET_def)
  then have sec: "unat (m - word_of_nat RTP_NTPTIMEOFFSET) = unat m - RTP_NTPTIMEOFFSET"
    by (simp add: unat_sub RTP_NTPTIMEOFFSET_def)
  have early: "\<not> unat m < RTP_NTPTIMEOFFSET"
    using assms by simp
  show ?thesis
    unfolding RTPTime_of_NTP_def Let_def
    by (simp only: RTPNTPTime.simps of_uint32_exact n_def [symmetric] early if_False a b c w sec
        Option.bind.simps)
qed

lemma RTPTime_of_NTP_bound:
  assumes "RTP_NTPTIMEOFFSET \<le> unat m"
  shows "\<exists>t. RTPTime_of_NTP \<lparr>msw = m, lsw = l\<rparr> = Some \<lparr>m_t = t\<rparr> \<and> is_double t \<and>
    \<bar>t - (real (unat m - RTP_NTPTIMEOFFSET) +
          real_of_int \<lfloor>real (unat l) * 1000000 / 2 ^ 32\<rfloor> / 1000000)\<bar> \<le> 1 / 2 ^ 23 + 1 / 2 ^ 52"
proof -
  define c where "c = fl (1 / 1000000)"
  define nl where "nl = unat l"
  define nm where "nm = unat m"
  define x where "x = real nl * 1000000 / 2 ^ 32"
  define q where "q = real_of_int \<lfloor>x\<rfloor>"
  define sec where "sec = real (nm - RTP_NTPTIMEOFFSET)"
  define p where "p = fl (c * q)"
  define t where "t = fl (sec + p)"
  have "nl < 2 ^ 32"
    unfolding nl_def using unsigned_less [of l] by simp
  then have x: "0 \<le> x" "x < 1000000"
    by (simp_all add: x_def)
  then have q: "0 \<le> q" "q \<le> 1000000"
    unfolding q_def by (simp, linarith)
  have qn: "real (nat \<lfloor>x\<rfloor>) = q"
    using x by (simp add: q_def)
  have res: "RTPTime_of_NTP \<lparr>msw = m, lsw = l\<rparr> = Some \<lparr>m_t = t\<rparr>"
    unfolding RTPTime_of_NTP_value [OF assms] t_def p_def sec_def c_def
      qn [unfolded x_def, symmetric] nl_def nm_def ..
  have c: "\<bar>c - 1 / 1000000\<bar> \<le> 1 / 2 ^ 73"
    unfolding c_def by (rule micro_error)
  have "c * q - q / 1000000 = (c - 1 / 1000000) * q"
    by (simp add: algebra_simps)
  then have "\<bar>c * q - q / 1000000\<bar> = \<bar>c - 1 / 1000000\<bar> * q"
    using q by (simp only: abs_mult abs_of_nonneg)
  also have "\<dots> \<le> 1 / 2 ^ 73 * 1000000"
    using c q by (intro mult_mono) simp_all
  also have "\<dots> \<le> 1 / 2 ^ 53"
    by simp
  finally have cq: "\<bar>c * q - q / 1000000\<bar> \<le> 1 / 2 ^ 53" .
  then have "\<bar>c * q\<bar> < pow2 (0 + 1)"
    using q by (simp add: pow2_def abs_if split: if_splits)
  from fl_error_bound [OF this] have "\<bar>p - c * q\<bar> \<le> 1 / 2 ^ 53"
    by (simp add: p_def pow2_def)
  from this cq have p: "\<bar>p - q / 1000000\<bar> \<le> 1 / 2 ^ 52"
    by (rule error_chain) simp
  have "nm < 2 ^ 32"
    unfolding nm_def using unsigned_less [of m] by simp
  then have sec: "0 \<le> sec" "sec \<le> 2085978495"
    by (simp_all add: sec_def RTP_NTPTIMEOFFSET_def)
  with p q have "\<bar>sec + p\<bar> < pow2 (30 + 1)"
    by (simp add: pow2_def abs_if split: if_splits)
  from fl_error_bound [OF this] have t: "\<bar>t - (sec + p)\<bar> \<le> 1 / 2 ^ 23"
    by (simp add: t_def pow2_def)
  moreover from p have "\<bar>sec + p - (sec + q / 1000000)\<bar> \<le> 1 / 2 ^ 52"
    by simp
  ultimately have "\<bar>t - (sec + q / 1000000)\<bar> \<le> 1 / 2 ^ 23 + 1 / 2 ^ 52"
    by (rule error_chain) simp
  moreover have "\<bar>t\<bar> < pow2 1024"
  proof -
    have "\<bar>t\<bar> < 2 ^ 32"
      using t p q sec by (simp add: abs_if split: if_splits)
    also have "(2::real) ^ 32 \<le> 2 ^ 1024"
      by (rule power_increasing) simp_all
    finally show ?thesis
      by (simp add: pow2_def)
  qed
  then have "is_double t"
    by (simp add: is_double_def t_def)
  ultimately show ?thesis
    using res unfolding sec_def q_def x_def nl_def nm_def by blast
qed

text \<open>
  Claim C6, with the fraction truncated.  A timestamp whose most significant word is
  below 2208988800 gives the time 0.  Any other gives a double \<open>t\<close> that stands for
  \<open>msw - 2208988800\<close> seconds and \<open>\<lfloor>lsw * 2 ^ - 32 * 10 ^ 6\<rfloor>\<close> microseconds: the
  fraction \<open>lsw * 2 ^ - 32\<close> is cut to whole microseconds, and \<open>t\<close> is that value up
  to the rounding of the two operations that put it together (below a quarter of a
  microsecond).
\<close>

theorem RTPTime_of_NTP_truncates:
  "(unat m < 2208988800 \<longrightarrow> RTPTime_of_NTP \<lparr>msw = m, lsw = l\<rparr> = Some \<lparr>m_t = 0\<rparr>) \<and>
   (2208988800 \<le> unat m \<longrightarrow>
      (\<exists>t. RTPTime_of_NTP \<lparr>msw = m, lsw = l\<rparr> = Some \<lparr>m_t = t\<rparr> \<and> is_double t \<and>
           \<bar>t - (real (unat m - 2208988800) +
                 real_of_int \<lfloor>real (unat l) / 2 ^ 32 * 10 ^ 6\<rfloor> / 10 ^ 6)\<bar>
             \<le> 1 / 2 ^ 23 + 1 / 2 ^ 52))"
proof (intro conjI impI)
  assume "unat m < 2208988800"
  then show "RTPTime_of_NTP \<lparr>msw = m, lsw = l\<rparr> = Some \<lparr>m_t = 0\<rparr>"
    by (simp add: RTPTime_of_NTP_def RTP_NTPTIMEOFFSET_def)
next
  assume "2208988800 \<le> unat m"
  then have "RTP_NTPTIMEOFFSET \<le> unat m"
    by (simp add: RTP_NTPTIMEOFFSET_def)
  from RTPTime_of_NTP_bound [OF this, of l]
  show "\<exists>t. RTPTime_of_NTP \<lparr>msw = m, lsw = l\<rparr> = Some \<lparr>m_t = t\<rparr> \<and> is_double t \<and>
           \<bar>t - (real (unat m - 2208988800) +
                 real_of_int \<lfloor>real (unat l) / 2 ^ 32 * 10 ^ 6\<rfloor> / 10 ^ 6)\<bar>
             \<le> 1 / 2 ^ 23 + 1 / 2 ^ 52"
    by (simp add: RTP_NTPTIMEOFFSET_def)
qed

theorem RTPTime_of_NTP_truncates_witness:
  "RTPTime_of_NTP \<lparr>msw = 7, lsw = 5\<rparr> = Some \<lparr>m_t = 0\<rparr> \<and>
   (\<exists>t. RTPTime_of_NTP \<lparr>msw = 2208988805, lsw = 2147483648\<rparr> = Some \<lparr>m_t = t\<rparr> \<and>
        is_double t \<and> \<bar>t - 11 / 2\<bar> \<le> 1 / 2 ^ 23 + 1 / 2 ^ 52)"
  using RTPTime_of_NTP_truncates [of 7 5] RTPTime_of_NTP_truncates [of 2208988805 2147483648]
  by simp

text \<open>
  Claim C6 as stated, with the fraction rounded to the microsecond, does not hold.  The
  timestamp (2208988800, 4294) stands for 0.99977 microseconds; the time made of it is 0,
  although one microsecond is nearer.
\<close>

theorem RTPTime_of_NTP_not_nearest:
  "RTPTime_of_NTP \<lparr>msw = 2208988800, lsw = 4294\<rparr> = Some \<lparr>m_t = 0\<rparr> \<and>
   \<bar>(4294 / 2 ^ 32 :: real) - 1 / 10 ^ 6\<bar> < \<bar>4294 / 2 ^ 32 - 0\<bar>"
  using RTPTime_of_NTP_value [of 2208988800 4294]
  by (simp add: RTP_NTPTIMEOFFSET_def)

subsection \<open>GetMicroSeconds\<close>

text \<open>
  \<^verbatim>\<open>RTPTime::GetMicroSeconds\<close>.  Each operation rounds once: the difference, the product
  with \<^verbatim>\<open>1e6\<close> and the sum with \<^verbatim>\<open>0.5\<close>.
\<close>

definition GetMicroSeconds :: "RTPTime \<Rightarrow> 32 word option" where
  "GetMicroSeconds t =
     do {
       microsec \<leftarrow>
         (if 0 \<le> m_t t
          then do {
            sec \<leftarrow> to_int64 (m_t t);
            to_uint32 (fl (fl (1000000 * fl (m_t t - fl (of_int sec))) + 1 / 2))
          }
          else do {
            sec \<leftarrow> to_int64 (- m_t t);
            to_uint32 (fl (fl (1000000 * fl (- m_t t - fl (of_int sec))) + 1 / 2))
          });
       Some (if 1000000 \<le> microsec then 999999 else microsec)
     }"

lemma is_double_minus:
  assumes "is_double x"
  shows "is_double (- x)"
proof -
  from assms have "fl x = x"
    by (simp add: is_double_def)
  from double_form [OF this] obtain m e
    where "x = of_int m * pow2 e" "\<bar>m\<bar> \<le> 2 ^ 53" "- 1074 \<le> e"
    by blast
  then have "fl (- x) = - x"
    by (intro fl_exact [of _ "- m" e]) simp_all
  with assms show ?thesis
    by (simp add: is_double_def)
qed

text \<open>The whole part and the fraction of a double are doubles.\<close>

lemma double_floor:
  assumes "fl a = a" and "0 \<le> a"
  shows "fl (of_int \<lfloor>a\<rfloor>) = of_int \<lfloor>a\<rfloor>" and "fl (a - of_int \<lfloor>a\<rfloor>) = a - of_int \<lfloor>a\<rfloor>"
proof -
  from double_form [OF assms(1)] obtain m e
    where a: "a = of_int m * pow2 e" and m: "\<bar>m\<bar> \<le> 2 ^ 53" and e: "- 1074 \<le> e"
    by blast
  have "fl (of_int \<lfloor>a\<rfloor>) = of_int \<lfloor>a\<rfloor> \<and> fl (a - of_int \<lfloor>a\<rfloor>) = a - of_int \<lfloor>a\<rfloor>"
  proof (cases "0 \<le> e")
    case True
    then have "a = of_int (m * 2 ^ nat e)"
      by (simp add: a pow2_def)
    then have whole: "of_int \<lfloor>a\<rfloor> = a"
      by (simp only: floor_of_int)
    show ?thesis
      unfolding whole using assms(1) by simp
  next
    case False
    define k where "k = nat (- e)"
    have pk: "pow2 e = 1 / 2 ^ k"
      using False by (simp add: pow2_def k_def)
    have "0 \<le> of_int m * pow2 e"
      using assms(2) by (simp add: a)
    then have m0: "0 \<le> m"
      using pow2_pos [of e] by (simp add: zero_le_mult_iff)
    have am: "a = of_int m / 2 ^ k"
      by (simp add: a pk)
    have whole: "\<lfloor>a\<rfloor> = m div 2 ^ k"
    proof -
      have "a = of_int m / of_int (2 ^ k)"
        by (simp add: am)
      then show ?thesis
        by (simp only: floor_divide_of_int_eq)
    qed
    have "0 \<le> m div 2 ^ k" "m div 2 ^ k \<le> m"
      using m0 zdiv_mono2 [of m 1 "2 ^ k"] by (simp_all add: pos_imp_zdiv_nonneg_iff)
    then have "\<bar>\<lfloor>a\<rfloor>\<bar> \<le> 2 ^ 53"
      using m by (simp add: whole)
    then have 1: "fl (of_int \<lfloor>a\<rfloor>) = of_int \<lfloor>a\<rfloor>"
      by (rule fl_of_int)
    have "m = m div 2 ^ k * 2 ^ k + m mod 2 ^ k"
      by (rule div_mult_mod_eq [symmetric])
    then have "real_of_int m = real_of_int (m div 2 ^ k * 2 ^ k + m mod 2 ^ k)"
      by (rule arg_cong)
    then have "real_of_int m = real_of_int (m div 2 ^ k) * 2 ^ k + real_of_int (m mod 2 ^ k)"
      by simp
    then have md: "real_of_int m / 2 ^ k - real_of_int (m div 2 ^ k) = real_of_int (m mod 2 ^ k) / 2 ^ k"
      by (simp add: field_simps)
    have "a - of_int \<lfloor>a\<rfloor> = of_int m / 2 ^ k - of_int (m div 2 ^ k)"
      unfolding whole by (subst am) (rule refl)
    also note md
    also have "real_of_int (m mod 2 ^ k) / 2 ^ k = of_int (m mod 2 ^ k) * pow2 e"
      by (simp add: pk)
    finally have fr: "a - of_int \<lfloor>a\<rfloor> = of_int (m mod 2 ^ k) * pow2 e" .
    have "0 \<le> m mod 2 ^ k" "m mod 2 ^ k \<le> m"
      using m0 by (simp_all add: zmod_le_nonneg_dividend)
    then have "\<bar>m mod 2 ^ k\<bar> \<le> 2 ^ 53"
      using m by simp
    from fl_exact [OF fr this e] 1 show ?thesis
      by simp
  qed
  then show "fl (of_int \<lfloor>a\<rfloor>) = of_int \<lfloor>a\<rfloor>" and "fl (a - of_int \<lfloor>a\<rfloor>) = a - of_int \<lfloor>a\<rfloor>"
    by simp_all
qed

lemma fl_eval:
  assumes "pow2 k \<le> \<bar>x\<bar>" and "\<bar>x\<bar> < pow2 (k + 1)" and "- 1022 \<le> k"
  shows "fl x = of_int (round_even (x / pow2 (k - 52))) * pow2 (k - 52)"
proof -
  have "0 < \<bar>x\<bar>"
    using assms(1) pow2_pos [of k] by linarith
  then have "x \<noteq> 0"
    by simp
  moreover have "ulp x = pow2 (k - 52)"
    using expo_eqI [OF assms(1,2)] assms(3) by (simp add: ulp_def)
  ultimately show ?thesis
    by (simp add: fl_def)
qed

text \<open>
  The microseconds of a fraction \<open>f\<close>: \<^verbatim>\<open>(uint32_t)(1e6*f + 0.5)\<close>.  The product and the sum
  are rounded, each by at most \<open>2 ^ - 34\<close>.
\<close>

lemma micro_of_fraction:
  assumes "0 \<le> f" and "f < 1"
  shows "\<exists>w. to_uint32 (fl (fl (1000000 * f) + 1 / 2)) = Some w \<and>
           real (unat w) \<le> f * 1000000 + 1 / 2 + 1 / 2 ^ 33 \<and>
           f * 1000000 - 1 / 2 - 1 / 2 ^ 33 < real (unat w)"
proof -
  define u where "u = f * 1000000"
  define p where "p = fl (1000000 * f)"
  define q where "q = fl (p + 1 / 2)"
  have u: "0 \<le> u" "u < 1000000"
    using assms by (simp_all add: u_def)
  then have "\<bar>1000000 * f\<bar> < pow2 (19 + 1)"
    by (simp add: u_def pow2_def)
  from fl_error_bound [OF this] have p: "\<bar>p - u\<bar> \<le> 1 / 2 ^ 34"
    by (simp add: p_def u_def pow2_def mult.commute)
  have p0: "0 \<le> p"
    unfolding p_def using assms by (intro fl_nonneg) simp
  have "p \<le> u + 1 / 2 ^ 34"
    using p by linarith
  then have "p < 1000001"
    using u by simp
  then have "\<bar>p + 1 / 2\<bar> < pow2 (19 + 1)"
    using p0 by (simp add: pow2_def)
  from fl_error_bound [OF this] have "\<bar>q - (p + 1 / 2)\<bar> \<le> 1 / 2 ^ 34"
    by (simp add: q_def pow2_def)
  moreover from p have "\<bar>p + 1 / 2 - (u + 1 / 2)\<bar> \<le> 1 / 2 ^ 34"
    by simp
  ultimately have q: "\<bar>q - (u + 1 / 2)\<bar> \<le> 1 / 2 ^ 33"
    by (rule error_chain) simp
  have q0: "0 \<le> q"
    unfolding q_def using p0 by (intro fl_nonneg) simp
  have "q \<le> u + 1 / 2 + 1 / 2 ^ 33"
    using q by linarith
  then have "q < 2 ^ 32"
    using u by simp
  with q0 obtain w where w: "to_uint32 q = Some w" "unat w = nat \<lfloor>q\<rfloor>"
    using to_uint32_floor by blast
  have r: "real (unat w) = of_int \<lfloor>q\<rfloor>"
    using q0 by (simp add: w(2))
  have "of_int \<lfloor>q\<rfloor> \<le> q" "q < of_int \<lfloor>q\<rfloor> + 1"
    by linarith+
  with q have "real (unat w) \<le> u + 1 / 2 + 1 / 2 ^ 33" "u - 1 / 2 - 1 / 2 ^ 33 < real (unat w)"
    unfolding r by linarith+
  with w(1) show ?thesis
    unfolding q_def p_def u_def by blast
qed

lemma clamp_microsec:
  fixes w :: "32 word" and u d :: real
  assumes "real (unat w) \<le> u + d" and "u - d < real (unat w)" and "u < 1000000" and "d < 1"
  shows "unat (if 1000000 \<le> w then 999999 else w) \<le> 999999 \<and>
         (if u < 1000000 - d
          then \<bar>real (unat (if 1000000 \<le> w then 999999 else w)) - u\<bar> \<le> d
          else unat (if 1000000 \<le> w then 999999 else w) = 999999)"
proof -
  define n where "n = unat w"
  have le: "(1000000 \<le> w) = (1000000 \<le> n)"
    by (simp add: word_le_nat_alt n_def)
  have n: "real n \<le> u + d" "u - d < real n"
    using assms(1,2) by (simp_all add: n_def)
  show ?thesis
  proof (cases "u < 1000000 - d")
    case True
    with n(1) have "real n < 1000000"
      by linarith
    then have small: "n < 1000000"
      by simp
    from n have "\<bar>real n - u\<bar> \<le> d"
      by linarith
    with True small show ?thesis
      unfolding le by (simp add: n_def [symmetric])
  next
    case False
    with n(2) assms(4) have "999998 < real n"
      by linarith
    then have "999999 \<le> n"
      by simp
    moreover from n(1) assms(3,4) have "real n < 1000001"
      by linarith
    then have "n \<le> 1000000"
      by simp
    ultimately have "n = 999999 \<or> n = 1000000"
      by linarith
    with False show ?thesis
      unfolding le by (auto simp: n_def [symmetric])
  qed
qed

lemma to_int64_floor:
  assumes "0 \<le> a" and "a < 2 ^ 63"
  shows "to_int64 a = Some \<lfloor>a\<rfloor>"
proof -
  from assms have "0 \<le> \<lfloor>a\<rfloor>" "\<lfloor>a\<rfloor> < 2 ^ 63"
    by (simp_all add: floor_less_iff)
  with assms show ?thesis
    by (simp add: to_int64_def trunc_def)
qed

lemma GetMicroSeconds_magnitude:
  assumes "is_double x" and "\<bar>x\<bar> < 2 ^ 63"
  shows "GetMicroSeconds \<lparr>m_t = x\<rparr> =
    do {
      microsec \<leftarrow> to_uint32 (fl (fl (1000000 * frac \<bar>x\<bar>) + 1 / 2));
      Some (if 1000000 \<le> microsec then 999999 else microsec)
    }"
proof -
  define a where "a = \<bar>x\<bar>"
  have "is_double a"
    using assms(1) is_double_minus [OF assms(1)] by (simp add: a_def abs_if)
  then have da: "fl a = a"
    by (simp add: is_double_def)
  have a: "0 \<le> a" "a < 2 ^ 63"
    using assms(2) by (simp_all add: a_def)
  note sec = to_int64_floor [OF a]
  note whole = double_floor [OF da a(1)]
  have fr: "frac a = a - of_int \<lfloor>a\<rfloor>"
    by (simp add: frac_def)
  have "(if 0 \<le> x
         then do {
           sec \<leftarrow> to_int64 x;
           to_uint32 (fl (fl (1000000 * fl (x - fl (of_int sec))) + 1 / 2))
         }
         else do {
           sec \<leftarrow> to_int64 (- x);
           to_uint32 (fl (fl (1000000 * fl (- x - fl (of_int sec))) + 1 / 2))
         }) =
        do {
          sec \<leftarrow> to_int64 a;
          to_uint32 (fl (fl (1000000 * fl (a - fl (of_int sec))) + 1 / 2))
        }"
    by (simp add: a_def abs_if)
  also have "\<dots> = to_uint32 (fl (fl (1000000 * frac a) + 1 / 2))"
    by (simp only: sec Option.bind.simps whole fr)
  finally have body:
    "(if 0 \<le> x
      then do {
        sec \<leftarrow> to_int64 x;
        to_uint32 (fl (fl (1000000 * fl (x - fl (of_int sec))) + 1 / 2))
      }
      else do {
        sec \<leftarrow> to_int64 (- x);
        to_uint32 (fl (fl (1000000 * fl (- x - fl (of_int sec))) + 1 / 2))
      }) = to_uint32 (fl (fl (1000000 * frac \<bar>x\<bar>) + 1 / 2))"
    unfolding a_def .
  show ?thesis
    unfolding GetMicroSeconds_def RTPTime.simps body ..
qed

text \<open>
  Claim C10, for the doubles below \<open>2 ^ 63\<close> in magnitude and up to the rounding of
  the arithmetic.  \<^verbatim>\<open>GetMicroSeconds\<close> returns a value \<open>w\<close> of at most 999999.  With
  \<open>u\<close> the fraction of \<open>\<bar>x\<bar>\<close> in microseconds: \<open>w\<close> is within
  \<open>1 / 2 + 2 ^ - 33\<close> of \<open>u\<close>, unless \<open>u\<close> is so near to a full second that the
  nearest integer may be 1000000, and then \<open>w\<close> is 999999.
\<close>

theorem GetMicroSeconds_nearest_clamped:
  assumes "is_double x" and "\<bar>x\<bar> < 2 ^ 63"
  shows "\<exists>w. GetMicroSeconds \<lparr>m_t = x\<rparr> = Some w \<and> unat w \<le> 999999 \<and>
           (if frac \<bar>x\<bar> * 1000000 < 1000000 - (1 / 2 + 1 / 2 ^ 33)
            then \<bar>real (unat w) - frac \<bar>x\<bar> * 1000000\<bar> \<le> 1 / 2 + 1 / 2 ^ 33
            else unat w = 999999)"
proof -
  define f where "f = frac \<bar>x\<bar>"
  have f: "0 \<le> f" "f < 1"
    by (simp_all add: f_def frac_lt_1)
  from micro_of_fraction [OF f] obtain w
    where w: "to_uint32 (fl (fl (1000000 * f) + 1 / 2)) = Some w"
      and "real (unat w) \<le> f * 1000000 + 1 / 2 + 1 / 2 ^ 33"
      and "f * 1000000 - 1 / 2 - 1 / 2 ^ 33 < real (unat w)"
    by blast
  then have up: "real (unat w) \<le> f * 1000000 + (1 / 2 + 1 / 2 ^ 33)"
    and low: "f * 1000000 - (1 / 2 + 1 / 2 ^ 33) < real (unat w)"
    by linarith+
  have full: "f * 1000000 < 1000000"
    using f by simp
  have tol: "(1 / 2 + 1 / 2 ^ 33 :: real) < 1"
    by simp
  note clamped = clamp_microsec [OF up low full tol]
  have "GetMicroSeconds \<lparr>m_t = x\<rparr> = Some (if 1000000 \<le> w then 999999 else w)"
    unfolding GetMicroSeconds_magnitude [OF assms] f_def [symmetric] w
    by (simp only: Option.bind.simps)
  with clamped show ?thesis
    unfolding f_def by blast
qed

theorem GetMicroSeconds_nearest_clamped_witness:
  "is_double (- 11 / 4) \<and> \<bar>- 11 / 4 :: real\<bar> < 2 ^ 63 \<and>
   (\<exists>w. GetMicroSeconds \<lparr>m_t = - 11 / 4\<rparr> = Some w \<and> unat w = 750000)"
proof -
  have "fl (- 11 / 4) = - 11 / 4"
    by (rule fl_exact [of _ "- 11" "- 2"]) (simp_all add: pow2_def)
  then have d: "is_double (- 11 / 4)"
    by (simp add: is_double_def pow2_def)
  have small: "\<bar>- 11 / 4 :: real\<bar> < 2 ^ 63"
    by simp
  have fr: "frac \<bar>- 11 / 4 :: real\<bar> = 3 / 4"
    by (simp add: frac_def)
  have below: "(3 / 4 * 1000000 :: real) < 1000000 - (1 / 2 + 1 / 2 ^ 33)"
    by simp
  have tol: "(1 / 2 + 1 / 2 ^ 33 :: real) < 1"
    by simp
  from GetMicroSeconds_nearest_clamped [OF d small, unfolded fr] obtain w
    where w: "GetMicroSeconds \<lparr>m_t = - 11 / 4\<rparr> = Some w"
      and near: "\<bar>real (unat w) - 3 / 4 * 1000000\<bar> \<le> 1 / 2 + 1 / 2 ^ 33"
    by (simp only: below if_True) blast
  from near tol have "749999 < real (unat w)" "real (unat w) < 750001"
    by linarith+
  then have "unat w = 750000"
    by linarith
  with w d show ?thesis
    by simp
qed

text \<open>
  Claim C10 as stated, for whatever double is stored, does not hold.  The double nearest
  to 0.5 microseconds lies below it, so that the nearest whole microsecond is 0; the
  product with \<^verbatim>\<open>1e6\<close> rounds to 0.5 and \<^verbatim>\<open>GetMicroSeconds\<close> returns 1.  And for the double
  \<open>2 ^ 63\<close> the conversion to \<^verbatim>\<open>int64_t\<close> has no defined result.
\<close>

theorem GetMicroSeconds_not_nearest:
  "is_double (4722366482869645 / 2 ^ 73) \<and>
   frac \<bar>4722366482869645 / 2 ^ 73 :: real\<bar> * 10 ^ 6 < 1 / 2 \<and>
   GetMicroSeconds \<lparr>m_t = 4722366482869645 / 2 ^ 73\<rparr> = Some 1 \<and>
   is_double (2 ^ 63) \<and> GetMicroSeconds \<lparr>m_t = 2 ^ 63\<rparr> = None"
proof -
  let ?x = "4722366482869645 / 2 ^ 73 :: real"
  have "fl ?x = ?x"
    by (rule fl_exact [of _ 4722366482869645 "- 73"]) (simp_all add: pow2_def)
  then have d: "is_double ?x"
    by (simp add: is_double_def pow2_def)
  have fr: "frac \<bar>?x\<bar> = ?x"
    by (simp add: frac_def)
  have small: "\<bar>?x\<bar> < 2 ^ 63"
    by simp
  have prod: "fl (1000000 * ?x) = 1 / 2"
    by (subst fl_eval [of "- 2"]) (simp_all add: pow2_def round_even_def Let_def)
  have sum: "(1 / 2 + 1 / 2 :: real) = 1"
    by simp
  have one: "fl 1 = 1"
    using fl_of_int [of 1] by simp
  have cast: "to_uint32 1 = Some 1"
    by (simp add: to_uint32_def trunc_def)
  have clamp: "(if 1000000 \<le> (1 :: 32 word) then 999999 else 1) = (1 :: 32 word)"
    by (simp add: word_le_nat_alt)
  have 1: "GetMicroSeconds \<lparr>m_t = ?x\<rparr> = Some 1"
    unfolding GetMicroSeconds_magnitude [OF d small]
    by (simp only: fr prod sum one cast Option.bind.simps clamp)
  have "fl (2 ^ 63) = 2 ^ 63"
    by (rule fl_exact [of _ 1 63]) (simp_all add: pow2_def)
  then have big: "is_double (2 ^ 63)"
    by (simp add: is_double_def pow2_def)
  have "GetMicroSeconds \<lparr>m_t = 2 ^ 63\<rparr> = None"
    by (simp add: GetMicroSeconds_def to_int64_def trunc_def)
  with d fr 1 big show ?thesis
    by simp
qed

end
